theory Spec2Isabelle
  imports Complex_Main
begin

section \<open>Conventions\<close>

text \<open>
  The controller is Python. Its clock readings (\<^verbatim>\<open>time.monotonic()\<close>) and its selection
  weights are Python floats; they are modelled as exact reals, so no statement below
  depends on rounding. Dictionaries are maps, raised exceptions are values of
  \<open>py_error\<close>, and an operation that can raise returns its outcome together with the
  object as the raise leaves it.
\<close>

datatype py_error = ValueError | KeyError | IndexError

section \<open>WeightedHistoryShuffler (ghost.py, lines 165--227)\<close>

record 'a shuffler =
  items :: "'a list"
  plays :: "'a \<rightharpoonup> nat"
  last_pick_idx :: "'a \<rightharpoonup> int"
  pick_counter :: int
  recent :: "'a list"
  recent_window :: nat
  unheard_boost :: real
  age_boost :: real
  recent_penalty :: real
  min_weight :: real

text \<open>
  \<^verbatim>\<open>__init__\<close>: an empty pool raises; \<^verbatim>\<open>deque(maxlen=recent_window)\<close> raises ValueError
  on a negative bound. Both dictionaries get one key per distinct item.
\<close>

definition shuffler_init ::
  "'a list \<Rightarrow> int \<Rightarrow> real \<Rightarrow> real \<Rightarrow> real \<Rightarrow> real \<Rightarrow> py_error + 'a shuffler" where
  "shuffler_init its rw ub ab rp mw =
     (if its = [] then Inl ValueError
      else if rw < 0 then Inl ValueError
      else Inr \<lparr> items = its,
                 plays = (\<lambda>i. if i \<in> set its then Some 0 else None),
                 last_pick_idx = (\<lambda>i. if i \<in> set its then Some (- (10 ^ 9)) else None),
                 pick_counter = 0,
                 recent = [],
                 recent_window = nat rw,
                 unheard_boost = ub, age_boost = ab, recent_penalty = rp, min_weight = mw \<rparr>)"

text \<open>\<^verbatim>\<open>deque.append\<close> on a bounded deque: the oldest entry falls out when it is full.\<close>

definition deque_append :: "nat \<Rightarrow> 'a list \<Rightarrow> 'a \<Rightarrow> 'a list" where
  "deque_append maxlen d x =
     (if maxlen = 0 then []
      else if length d \<ge> maxlen then tl d @ [x]
      else d @ [x])"

text \<open>\<^verbatim>\<open>_weight\<close>: both dictionary reads raise KeyError on an unknown item.\<close>

definition weight :: "'a shuffler \<Rightarrow> 'a \<Rightarrow> py_error + real" where
  "weight s item =
     (case last_pick_idx s item of
        None \<Rightarrow> Inl KeyError
      | Some lp \<Rightarrow>
         (case plays s item of
            None \<Rightarrow> Inl KeyError
          | Some p \<Rightarrow>
             (let age = max 0 (pick_counter s - lp);
                  unheard = (if p = 0 then 1 else 0 :: real);
                  base = 1 / (1 + real p);
                  w = base * (1 + unheard_boost s * unheard) * (1 + age_boost s * real_of_int age);
                  w' = (if item \<in> set (recent s) then w * max 0 (1 - recent_penalty s) else w)
              in Inr (max (min_weight s) w'))))"

text \<open>\<^verbatim>\<open>_note_pick\<close>: the first statement, \<^verbatim>\<open>self._plays[item] += 1\<close>, is the only one
  that can raise, and it raises before anything is written.\<close>

definition note_pick :: "'a shuffler \<Rightarrow> 'a \<Rightarrow> (py_error + unit) \<times> 'a shuffler" where
  "note_pick s item =
     (case plays s item of
        None \<Rightarrow> (Inl KeyError, s)
      | Some p \<Rightarrow>
         (Inr (),
          s\<lparr> plays := (plays s)(item \<mapsto> p + 1),
             last_pick_idx := (last_pick_idx s)(item \<mapsto> pick_counter s),
             recent := deque_append (recent_window s) (recent s) item,
             pick_counter := pick_counter s + 1 \<rparr>))"

definition observe :: "'a shuffler \<Rightarrow> 'a \<Rightarrow> (py_error + unit) \<times> 'a shuffler" where
  "observe s item =
     (if plays s item = None then (Inl ValueError, s)
      else note_pick s item)"

subsection \<open>The standard library's weighted draw\<close>

text \<open>
  \<^verbatim>\<open>random.choices(population, weights, k=1)[0]\<close> is library code, not code of this
  repository. It is written out here as CPython has it, with the one uniform draw
  \<open>u\<close> of \<^verbatim>\<open>random()\<close>, \<open>0 \<le> u < 1\<close>, supplied by the caller: the running totals of
  the weights, ValueError when there are not as many of them as items, IndexError on an
  empty population (the read of the last total), ValueError when the total is not
  positive, and
  \<^verbatim>\<open>bisect(cum_weights, u * total, 0, n - 1)\<close>.
\<close>

fun accumulate :: "real \<Rightarrow> real list \<Rightarrow> real list" where
  "accumulate acc [] = []"
| "accumulate acc (w # ws) = (acc + w) # accumulate (acc + w) ws"

function bisect :: "real list \<Rightarrow> real \<Rightarrow> nat \<Rightarrow> nat \<Rightarrow> nat" where
  "bisect a x lo hi =
     (if lo < hi then
        (let mid = (lo + hi) div 2
         in if x < a ! mid then bisect a x lo mid else bisect a x (mid + 1) hi)
      else lo)"
  by pat_completeness auto
termination
  by (relation "measure (\<lambda>(a, x, lo, hi). hi - lo)") auto

declare bisect.simps [simp del]

definition choices :: "'a list \<Rightarrow> real list \<Rightarrow> real \<Rightarrow> py_error + 'a" where
  "choices population weights u =
     (let cum_weights = accumulate 0 weights;
          n = length population
      in if length cum_weights \<noteq> n then Inl ValueError
         else if n = 0 then Inl IndexError
         else (let total = last cum_weights
               in if total \<le> 0 then Inl ValueError
                  else Inr (population ! bisect cum_weights (u * total) 0 (n - 1))))"

text \<open>The list comprehension of \<^verbatim>\<open>next\<close>: the first weight that raises ends it.\<close>

fun weights_of :: "'a shuffler \<Rightarrow> 'a list \<Rightarrow> py_error + real list" where
  "weights_of s [] = Inr []"
| "weights_of s (i # is) =
     (case weight s i of
        Inl e \<Rightarrow> Inl e
      | Inr w \<Rightarrow> (case weights_of s is of Inl e \<Rightarrow> Inl e | Inr ws \<Rightarrow> Inr (w # ws)))"

text \<open>\<^verbatim>\<open>next\<close>, with the uniform draw \<open>u\<close> of its \<^verbatim>\<open>random.choices\<close> call.\<close>

definition shuffler_next :: "'a shuffler \<Rightarrow> real \<Rightarrow> (py_error + 'a) \<times> 'a shuffler" where
  "shuffler_next s u =
     (case weights_of s (items s) of
        Inl e \<Rightarrow> (Inl e, s)
      | Inr ws \<Rightarrow>
         (case choices (items s) ws u of
            Inl e \<Rightarrow> (Inl e, s)
          | Inr choice \<Rightarrow>
             (case note_pick s choice of
                (Inl e, s') \<Rightarrow> (Inl e, s')
              | (Inr _, s') \<Rightarrow> (Inr choice, s'))))"

subsection \<open>Shufflers the program can hold\<close>

text \<open>A shuffler is built by \<^verbatim>\<open>__init__\<close> and then only changed by \<^verbatim>\<open>observe\<close> and
  \<^verbatim>\<open>next\<close>. On every such shuffler the keys of both dictionaries are the pool.\<close>

definition shuffler_ok :: "'a shuffler \<Rightarrow> bool" where
  "shuffler_ok s \<longleftrightarrow> dom (plays s) = set (items s) \<and> dom (last_pick_idx s) = set (items s)"

inductive reach :: "'a shuffler \<Rightarrow> bool" where
  r_init: "shuffler_init its rw ub ab rp mw = Inr s \<Longrightarrow> reach s"
| r_observe: "reach s \<Longrightarrow> reach (snd (observe s x))"
| r_next: "reach s \<Longrightarrow> reach (snd (shuffler_next s u))"


text \<open>The pool of two clips with the constructor's default tuning, used for the
  concrete runs below.\<close>

definition pool2 :: "string shuffler" where
  "pool2 = \<lparr> items = [''a'', ''b''],
                 plays = (\<lambda>i. if i \<in> set [''a'', ''b''] then Some 0 else None),
                 last_pick_idx = (\<lambda>i. if i \<in> set [''a'', ''b''] then Some (- (10 ^ 9)) else None),
                 pick_counter = 0,
                 recent = [],
                 recent_window = nat 2,
                 unheard_boost = 2, age_boost = 15/100, recent_penalty = 1/10, min_weight = 5/100 \<rparr>"


subsection \<open>Facts about the shuffler\<close>

lemma init_wf: "shuffler_init its rw ub ab rp mw = Inr s \<Longrightarrow> shuffler_ok s"
  by (auto simp: shuffler_init_def shuffler_ok_def split: if_splits)

lemma note_pick_wf: "shuffler_ok s \<Longrightarrow> shuffler_ok (snd (note_pick s x))"
  by (auto simp: note_pick_def shuffler_ok_def split: option.splits)

lemma observe_wf: "shuffler_ok s \<Longrightarrow> shuffler_ok (snd (observe s x))"
  by (simp add: observe_def note_pick_wf)

lemma next_wf: "shuffler_ok s \<Longrightarrow> shuffler_ok (snd (shuffler_next s u))"
  by (auto simp: shuffler_next_def split: sum.splits prod.splits)
     (metis snd_conv note_pick_wf)+

lemma bisect_le: "lo \<le> hi \<Longrightarrow> lo \<le> bisect a x lo hi \<and> bisect a x lo hi \<le> hi"
proof (induction a x lo hi rule: bisect.induct)
  case (1 a x lo hi)
  show ?case
  proof (cases "lo < hi")
    case False
    then show ?thesis using "1.prems" by (simp add: bisect.simps)
  next
    case True
    let ?mid = "(lo + hi) div 2"
    have m: "lo \<le> ?mid" "?mid < hi" using True by auto
    show ?thesis
    proof (cases "x < a ! ?mid")
      case True
      with "1.IH"(1)[OF \<open>lo < hi\<close> refl True] m \<open>lo < hi\<close>
      show ?thesis by (subst (1 2) bisect.simps) (simp add: Let_def)
    next
      case False
      with "1.IH"(2)[OF \<open>lo < hi\<close> refl False] m \<open>lo < hi\<close>
      show ?thesis by (subst (1 2) bisect.simps) (simp add: Let_def)
    qed
  qed
qed

lemma bisect_spec:
  "sorted_wrt (<) a \<Longrightarrow> lo \<le> hi \<Longrightarrow> hi < length a \<Longrightarrow> (\<forall>j<lo. a ! j \<le> x) \<Longrightarrow> x < a ! hi
     \<Longrightarrow> (\<forall>j < bisect a x lo hi. a ! j \<le> x) \<and> x < a ! bisect a x lo hi"
proof (induction a x lo hi rule: bisect.induct)
  case (1 a x lo hi)
  show ?case
  proof (cases "lo < hi")
    case False
    then have "bisect a x lo hi = lo" by (simp add: bisect.simps)
    moreover have "lo = hi" using False "1.prems"(2) by simp
    ultimately show ?thesis using "1.prems" by simp
  next
    case True
    let ?mid = "(lo + hi) div 2"
    have m: "lo \<le> ?mid" "?mid < hi" using True by auto
    show ?thesis
    proof (cases "x < a ! ?mid")
      case lt: True
      have eq: "bisect a x lo hi = bisect a x lo ?mid"
        using True lt by (subst bisect.simps) (simp add: Let_def)
      show ?thesis unfolding eq
        using "1.IH"(1)[OF True refl lt "1.prems"(1)] m "1.prems" lt by simp
    next
      case ge: False
      have eq: "bisect a x lo hi = bisect a x (?mid + 1) hi"
        using True ge by (subst bisect.simps) (simp add: Let_def)
      have "\<forall>j<?mid + 1. a ! j \<le> x"
      proof (intro allI impI)
        fix j assume "j < ?mid + 1"
        then have "j = ?mid \<or> j < ?mid" by auto
        then show "a ! j \<le> x"
        proof
          assume "j = ?mid" then show ?thesis using ge by simp
        next
          assume "j < ?mid"
          then have "a ! j < a ! ?mid"
            using sorted_wrt_nth_less[OF "1.prems"(1), of j ?mid] m "1.prems"(3) by simp
          then show ?thesis using ge by simp
        qed
      qed
      then show ?thesis unfolding eq
        using "1.IH"(2)[OF True refl ge "1.prems"(1)] m "1.prems" by simp
    qed
  qed
qed

lemma accumulate_length: "length (accumulate acc ws) = length ws"
  by (induction ws arbitrary: acc) auto

lemma accumulate_strict:
  "\<forall>w\<in>set ws. 0 < w \<Longrightarrow> sorted_wrt (<) (accumulate acc ws) \<and> (\<forall>y\<in>set (accumulate acc ws). acc < y)"
proof (induction ws arbitrary: acc)
  case Nil
  then show ?case by simp
next
  case (Cons w ws)
  have w: "0 < w" and rest: "\<forall>v\<in>set ws. 0 < v" using Cons.prems by auto
  from Cons.IH[OF rest, of "acc + w"] w show ?case by fastforce
qed

lemma bisect_unique:
  assumes srt: "sorted_wrt (<) a" and n: "a \<noteq> []" and i: "i < length a"
    and lo: "i = 0 \<or> a ! (i - 1) \<le> x" and hi: "x < a ! i" and top: "x < last a"
  shows "bisect a x 0 (length a - 1) = i"
proof -
  let ?r = "bisect a x 0 (length a - 1)"
  have len: "length a - 1 < length a" using n by simp
  have "x < a ! (length a - 1)" using top n by (simp add: last_conv_nth)
  from bisect_spec[OF srt _ len _ this, of 0]
  have r1: "\<forall>j < ?r. a ! j \<le> x" and r2: "x < a ! ?r" by auto
  have rb: "?r < length a" using bisect_le[of 0 "length a - 1" a x] len by simp
  have "\<not> ?r < i"
  proof
    assume lt: "?r < i"
    then have "i \<noteq> 0" by simp
    with lo have l: "a ! (i - 1) \<le> x" by simp
    have "a ! ?r \<le> a ! (i - 1)"
    proof (cases "?r = i - 1")
      case True then show ?thesis by simp
    next
      case False
      then have "?r < i - 1" using lt by simp
      moreover have "i - 1 < length a" using i by simp
      ultimately have "a ! ?r < a ! (i - 1)" by (rule sorted_wrt_nth_less[OF srt])
      then show ?thesis by simp
    qed
    with l r2 show False by simp
  qed
  moreover have "\<not> i < ?r"
  proof
    assume "i < ?r"
    with r1 have "a ! i \<le> x" by simp
    with hi show False by simp
  qed
  ultimately show ?thesis by simp
qed

lemma choices_can_pick:
  assumes pos: "\<forall>w\<in>set ws. 0 < w" and len: "length ws = length pop" and i: "i < length pop"
  shows "\<exists>u. 0 \<le> u \<and> u < 1 \<and> choices pop ws u = Inr (pop ! i)"
proof -
  let ?a = "accumulate 0 ws"
  have la: "length ?a = length pop" using len by (simp add: accumulate_length)
  have ne: "?a \<noteq> []" using la i by auto
  have srt: "sorted_wrt (<) ?a" and gt: "\<forall>y\<in>set ?a. 0 < y"
    using accumulate_strict[OF pos, of 0] by auto
  have ia: "i < length ?a" using la i by simp
  have tot: "0 < last ?a" using gt ne by simp
  have nth_pos: "\<And>j. j < length ?a \<Longrightarrow> 0 < ?a ! j" using gt by simp
  define x where "x = (if i = 0 then 0 else ?a ! (i - 1))"
  define u where "u = x / last ?a"
  have x0: "0 \<le> x" using nth_pos[of "i - 1"] ia by (auto simp: x_def less_imp_le)
  have xi: "x < ?a ! i"
  proof (cases "i = 0")
    case True then show ?thesis using nth_pos[OF ia] by (simp add: x_def)
  next
    case False
    then have "i - 1 < i" by simp
    from sorted_wrt_nth_less[OF srt this ia] False show ?thesis by (simp add: x_def)
  qed
  have "?a ! i \<le> last ?a"
  proof (cases "i = length ?a - 1")
    case True then show ?thesis using ne by (simp add: last_conv_nth)
  next
    case False
    then have "i < length ?a - 1" using ia by simp
    moreover have "length ?a - 1 < length ?a" using ne by simp
    ultimately have "?a ! i < ?a ! (length ?a - 1)" by (rule sorted_wrt_nth_less[OF srt])
    then show ?thesis using ne by (simp add: last_conv_nth)
  qed
  with xi have xt: "x < last ?a" by simp
  have lo: "i = 0 \<or> ?a ! (i - 1) \<le> x" by (simp add: x_def)
  have b: "bisect ?a x 0 (length ?a - 1) = i"
    by (rule bisect_unique[OF srt ne ia lo xi xt])
  have ux: "u * last ?a = x" using tot by (simp add: u_def)
  have "0 \<le> u" using x0 tot by (simp add: u_def)
  moreover have "u < 1" using xt tot by (simp add: u_def)
  moreover have "choices pop ws u = Inr (pop ! i)"
    using la i tot b ux by (auto simp: choices_def Let_def)
  ultimately show ?thesis by blast
qed

lemma choices_member: "choices pop ws u = Inr y \<Longrightarrow> y \<in> set pop"
proof -
  assume a: "choices pop ws u = Inr y"
  let ?a = "accumulate 0 ws"
  from a have n: "0 < length pop" and y: "y = pop ! bisect ?a (u * last ?a) 0 (length pop - 1)"
    by (auto simp: choices_def Let_def split: if_splits)
  have "bisect ?a (u * last ?a) 0 (length pop - 1) \<le> length pop - 1"
    using bisect_le[of 0 "length pop - 1"] by simp
  with n have "bisect ?a (u * last ?a) 0 (length pop - 1) < length pop" by linarith
  then show ?thesis using y by simp
qed

lemma weight_ok:
  "shuffler_ok s \<Longrightarrow> i \<in> set (items s) \<Longrightarrow> \<exists>w. weight s i = Inr w \<and> min_weight s \<le> w"
  by (auto simp: shuffler_ok_def weight_def Let_def split: option.splits)

lemma weights_of_ok:
  "shuffler_ok s \<Longrightarrow> set js \<subseteq> set (items s) \<Longrightarrow>
   \<exists>ws. weights_of s js = Inr ws \<and> length ws = length js \<and> (\<forall>w\<in>set ws. min_weight s \<le> w)"
proof (induction js)
  case Nil
  then show ?case by simp
next
  case (Cons j js)
  from Cons.prems have "j \<in> set (items s)" by simp
  from weight_ok[OF Cons.prems(1) this] obtain w where w: "weight s j = Inr w" "min_weight s \<le> w" by blast
  from Cons.IH Cons.prems obtain ws where
    ws: "weights_of s js = Inr ws" "length ws = length js" "\<forall>w\<in>set ws. min_weight s \<le> w" by auto
  show ?case using w ws by simp
qed

lemma next_can_pick:
  assumes w: "shuffler_ok s" and m: "0 < min_weight s" and y: "y \<in> set (items s)"
  shows "\<exists>u. 0 \<le> u \<and> u < 1 \<and> fst (shuffler_next s u) = Inr y"
proof -
  from weights_of_ok[OF w subset_refl] obtain ws where
    ws: "weights_of s (items s) = Inr ws" "length ws = length (items s)" "\<forall>w\<in>set ws. min_weight s \<le> w"
    by blast
  have pos: "\<forall>w\<in>set ws. 0 < w" using ws(3) m by fastforce
  from y obtain i where i: "i < length (items s)" "items s ! i = y" by (auto simp: in_set_conv_nth)
  from choices_can_pick[OF pos ws(2) i(1)] i(2) obtain u where
    u: "0 \<le> u" "u < 1" "choices (items s) ws u = Inr y" by auto
  have "plays s y \<noteq> None" using w y by (auto simp: shuffler_ok_def)
  then have "fst (shuffler_next s u) = Inr y"
    using ws(1) u(3) by (auto simp: shuffler_next_def note_pick_def split: option.splits)
  with u show ?thesis by blast
qed

lemma next_member:
  "fst (shuffler_next s u) = Inr y \<Longrightarrow> y \<in> set (items s)"
  by (auto simp: shuffler_next_def split: sum.splits prod.splits dest: choices_member)

lemma reach_wf: "reach s \<Longrightarrow> shuffler_ok s"
  by (induction rule: reach.induct) (auto intro: init_wf observe_wf next_wf)

lemma observe_fields:
  "plays s x = Some p \<Longrightarrow>
   snd (observe s x) = s\<lparr> plays := (plays s)(x \<mapsto> p + 1),
             last_pick_idx := (last_pick_idx s)(x \<mapsto> pick_counter s),
             recent := deque_append (recent_window s) (recent s) x,
             pick_counter := pick_counter s + 1 \<rparr>"
  by (simp add: observe_def note_pick_def)

lemma pool2_init: "shuffler_init [''a'', ''b''] 2 2 (15/100) (1/10) (5/100) = Inr pool2"
  by (simp add: shuffler_init_def pool2_def)


subsection \<open>Claims about the shuffler\<close>

text \<open>
  Claim C10. On a shuffler the program can hold, \<^verbatim>\<open>observe(item)\<close> raises ValueError
  exactly when the item is not in the pool, returns normally otherwise, and when it
  raises, the shuffler (play counts, last-pick indices, recent history, pick counter) is
  the one it was called on.
\<close>

theorem observe_raises_iff:
  assumes "reach s"
  shows "fst (observe s x) = (if x \<in> set (items s) then Inr () else Inl ValueError)
       \<and> (fst (observe s x) = Inl ValueError \<longrightarrow> snd (observe s x) = s)"
  using reach_wf[OF assms]
  by (auto simp: observe_def note_pick_def shuffler_ok_def split: option.splits)

theorem observe_raises_iff_witness:
  "fst (observe pool2 ''c'') = Inl ValueError \<and> snd (observe pool2 ''c'') = pool2 \<and> fst (observe pool2 ''a'') = Inr ()"
  using observe_raises_iff[OF r_init[OF pool2_init], of "''c''"] observe_raises_iff[OF r_init[OF pool2_init], of "''a''"]
  by (simp add: pool2_def)


text \<open>
  Claim C8, as stated, at a concrete input: a pool of two items with recency window 2;
  \<^verbatim>\<open>observe('b')\<close>, \<^verbatim>\<open>observe('a')\<close>, then \<^verbatim>\<open>next()\<close> with the uniform draw 1/4. The
  weights are 0.5175 for a and 0.585 for b, and the draw selects a again.
\<close>

theorem observe_then_next_repeats:
  "2 \<le> length (items pool2) \<and> 1 \<le> recent_window pool2
   \<and> fst (shuffler_next (snd (observe (snd (observe pool2 ''b'')) ''a'')) (1/4)) = Inr ''a''"
  by (simp add: shuffler_next_def observe_def note_pick_def pool2_def weight_def
        deque_append_def choices_def bisect.simps Let_def)

text \<open>
  Claim C8, amended. On a shuffler the program can hold, with at least two items, a
  recency window of at least 1 and a positive weight floor, \<^verbatim>\<open>observe(x)\<close> puts x
  into the recent history, and the following \<^verbatim>\<open>next()\<close> weighs x with the recency
  penalty, floored at \<open>min_weight\<close>: the weight stays positive, and there is a uniform
  draw for which \<^verbatim>\<open>next()\<close> returns x again.
\<close>

theorem observe_then_next:
  assumes r: "reach s" and x: "x \<in> set (items s)" and n: "2 \<le> length (items s)"
    and k: "1 \<le> recent_window s" and m: "0 < min_weight s"
  shows "x \<in> set (recent (snd (observe s x)))
       \<and> (\<exists>p. plays s x = Some p \<and>
              weight (snd (observe s x)) x =
                Inr (max (min_weight s)
                       (1 / (2 + real p) * (1 + age_boost s) * max 0 (1 - recent_penalty s))))
       \<and> (\<exists>u. 0 \<le> u \<and> u < 1 \<and> fst (shuffler_next (snd (observe s x)) u) = Inr x)"
proof -
  have w: "shuffler_ok s" by (rule reach_wf[OF r])
  from w x obtain p where p: "plays s x = Some p" by (auto simp: shuffler_ok_def)
  let ?s = "snd (observe s x)"
  have w': "shuffler_ok ?s" by (rule observe_wf[OF w])
  have rec: "x \<in> set (recent ?s)"
    using k by (simp add: observe_fields[OF p] deque_append_def)
  have it: "items ?s = items s" and mw: "min_weight ?s = min_weight s"
    by (simp_all add: observe_fields[OF p])
  have wt: "weight ?s x = Inr (max (min_weight s)
                       (1 / (2 + real p) * (1 + age_boost s) * max 0 (1 - recent_penalty s)))"
    using rec unfolding weight_def observe_fields[OF p] by (simp add: Let_def)
  from next_can_pick[OF w', of x] m x it mw
  have "\<exists>u. 0 \<le> u \<and> u < 1 \<and> fst (shuffler_next ?s u) = Inr x" by simp
  with rec p wt show ?thesis by blast
qed


theorem observe_then_next_witness:
  "''a'' \<in> set (recent (snd (observe pool2 ''a'')))
   \<and> (\<exists>u. 0 \<le> u \<and> u < 1 \<and> fst (shuffler_next (snd (observe pool2 ''a'')) u) = Inr ''a'')"
  using observe_then_next[OF r_init[OF pool2_init], of "''a''"]
  by (simp add: pool2_def)

section \<open>Gestures and process-wide state (ghost.py, lines 76--156)\<close>

datatype button = B1 | B2

text \<open>
  The event strings of the queue: \<^verbatim>\<open>"B1_TAP"\<close> is \<open>TAP B1\<close>, \<^verbatim>\<open>"B2_DOUBLE"\<close> is
  \<open>DOUBLE B2\<close>, \<^verbatim>\<open>"B1_HOLD"\<close> is \<open>HOLD B1\<close>, \<^verbatim>\<open>"B1_5TAP"\<close> is \<open>FIVETAP B1\<close>,
  \<^verbatim>\<open>"B1B2_CHORD"\<close> is \<open>CHORD\<close>; \<open>QUIT\<close> is the one further name the simulator's
  keyboard poll can post.
\<close>

datatype gesture = TAP button | DOUBLE button | HOLD button | FIVETAP button | CHORD | QUIT

datatype state_cls =
  BootState | IdleState | SingState | SleepState | ShutdownState | StoryState | DiceState | QuipState

text \<open>The module's globals that more than one component touches.\<close>

record globals =
  interrupt_requested :: bool
  shutting_down :: bool
  event_queue :: "gesture list"
  last_hold_time :: "button \<Rightarrow> real"
  last_chord_time :: real

section \<open>The display, as the frames shown (ghost.py, lines 308--347)\<close>

datatype sheet = DiceSheet | ResultSheet

type_synonym frame = "sheet \<times> nat \<times> nat"

text \<open>
  \<^verbatim>\<open>SpriteAnimator.play_column\<close> with \<^verbatim>\<open>loop=False\<close> (no call in the program passes
  \<^verbatim>\<open>loop=True\<close>), returning the final index and the frames shown. The interrupt flag
  is taken as it stands when the call starts: no other context changes it during the
  call. With the flag clear the body runs at least once, so a frame is shown even when
  \<open>start \<ge> stop\<close> (the source's \<^verbatim>\<open>end\<close>).
\<close>

function play_loop :: "bool \<Rightarrow> sheet \<Rightarrow> nat \<Rightarrow> nat \<Rightarrow> nat \<Rightarrow> frame list \<Rightarrow> nat \<times> frame list" where
  "play_loop intr sh col index stop shown =
     (if intr then (index, shown)
      else (let shown' = shown @ [(sh, col, index)];
                index' = index + 1
            in if index' \<ge> stop then (index', shown')
               else play_loop intr sh col index' stop shown'))"
  by pat_completeness auto
termination
  by (relation "measure (\<lambda>(intr, sh, col, index, stop, shown). stop - index)") auto

declare play_loop.simps [simp del]

definition play_column ::
  "bool \<Rightarrow> sheet \<Rightarrow> nat \<Rightarrow> nat \<Rightarrow> nat \<Rightarrow> bool \<Rightarrow> frame list \<Rightarrow> nat \<times> frame list" where
  "play_column intr sh col start stop hold_last shown =
     (case play_loop intr sh col start stop shown of
        (index, shown') \<Rightarrow>
          (index, if hold_last \<and> index > 0 then shown' @ [(sh, col, index - 1)] else shown'))"

section \<open>What the state handlers act on\<close>

text \<open>
  The globals, the manager's \<^verbatim>\<open>next_state\<close>, and the outside world as logs: the frames
  shown, the clips handed to \<^verbatim>\<open>play_audio\<close>, and how often the display was
  re-initialised.
\<close>

record app = globals +
  next_state :: "state_cls option"
  shown :: "frame list"
  played :: "string list"
  display_inits :: nat

section \<open>SleepState (ghost.py, lines 573--659)\<close>

record sleep_state =
  wake_taps :: nat
  last_tap_time :: real
  sleep_tap_window :: real
  settle_until :: real
  wake_requested :: bool

text \<open>\<^verbatim>\<open>SleepState.__init__\<close>, entered at clock reading \<open>now\<close>.\<close>

definition sleep_init :: "real \<Rightarrow> sleep_state" where
  "sleep_init now =
     \<lparr> wake_taps = 0, last_tap_time = 0, sleep_tap_window = 6 / 10,
       settle_until = now + 5 / 10, wake_requested = False \<rparr>"

text \<open>\<^verbatim>\<open>_wake\<close>: a repeated request returns at once; the first one re-initialises the
  display, raises the interrupt flag and asks for BootState.\<close>

definition wake :: "sleep_state \<times> 'a app_scheme \<Rightarrow> sleep_state \<times> 'a app_scheme" where
  "wake = (\<lambda>(sl, a).
     if wake_requested sl then (sl, a)
     else (sl\<lparr>wake_requested := True\<rparr>,
           a\<lparr>display_inits := display_inits a + 1,
             interrupt_requested := True,
             next_state := Some BootState\<rparr>))"

text \<open>\<^verbatim>\<open>SleepState.handle_event\<close>, called at clock reading \<open>now\<close>.\<close>

definition sleep_handle_event ::
  "real \<Rightarrow> gesture \<Rightarrow> sleep_state \<times> 'a app_scheme \<Rightarrow> sleep_state \<times> 'a app_scheme" where
  "sleep_handle_event now evt = (\<lambda>(sl, a).
     if now < settle_until sl then (sl, a)
     else if evt = FIVETAP B1 then wake (sl, a)
     else if evt = TAP B1 then
       (let sl1 = (if now - last_tap_time sl < sleep_tap_window sl
                   then sl\<lparr>wake_taps := wake_taps sl + 1\<rparr>
                   else sl\<lparr>wake_taps := 1\<rparr>);
            sl2 = sl1\<lparr>last_tap_time := now\<rparr>
        in if wake_taps sl2 \<ge> 5 then wake (sl2, a) else (sl2, a))
     else (sl, a))"

text \<open>A run of \<^verbatim>\<open>B1_TAP\<close> events, one handler call per clock reading.\<close>

fun sleep_taps :: "real list \<Rightarrow> sleep_state \<times> 'a app_scheme \<Rightarrow> sleep_state \<times> 'a app_scheme" where
  "sleep_taps [] c = c"
| "sleep_taps (t # ts) c = sleep_taps ts (sleep_handle_event t (TAP B1) c)"

text \<open>Every tap of the run is less than the wake window after the one before it.\<close>

fun within_window :: "real \<Rightarrow> real list \<Rightarrow> bool" where
  "within_window w [] = True"
| "within_window w [t] = True"
| "within_window w (t # t' # ts) = (t' - t < w \<and> within_window w (t' # ts))"

section \<open>DiceState (ghost.py, lines 765--958)\<close>

datatype dice_mode = Selection | Result

record dice_state =
  selected_index :: nat
  mode :: dice_mode
  last_idle_log :: real
  last_result :: "nat option"
  dice_settle_until :: real

definition MAX_VALS :: "nat list" where
  "MAX_VALS = [20, 12, 10, 8, 6, 4, 100]"

definition dice_names :: "string list" where
  "dice_names = [''d20'', ''d12'', ''d10'', ''d8'', ''d6'', ''d4'', ''d100'']"

definition dice_init :: "real \<Rightarrow> dice_state" where
  "dice_init now =
     \<lparr> selected_index = 0, mode = Selection, last_idle_log = 0, last_result = None,
       dice_settle_until = now + 25 / 100 \<rparr>"

definition show_selection :: "dice_state \<Rightarrow> 'a app_scheme \<Rightarrow> 'a app_scheme" where
  "show_selection d a =
     a\<lparr>shown := snd (play_column (interrupt_requested a) DiceSheet (selected_index d) 0 4 True (shown a))\<rparr>"

definition play_result_strip :: "nat \<Rightarrow> dice_state \<Rightarrow> 'a app_scheme \<Rightarrow> 'a app_scheme" where
  "play_result_strip start_frame d a =
     (case last_result d of
        None \<Rightarrow> a
      | Some r \<Rightarrow>
         (let start = (if start_frame \<le> 0 then 0 else if start_frame \<le> 3 then 3 else start_frame)
          in a\<lparr>shown := snd (play_column (interrupt_requested a) ResultSheet (r - 1) start 7 False (shown a))\<rparr>))"

text \<open>
  \<^verbatim>\<open>_roll_current\<close>, with the outcome \<open>r\<close> of its \<^verbatim>\<open>random.randint\<close> call supplied
  by the caller. The roll cue plays beside the roll animation; the bonus cue follows
  the result.
\<close>

definition roll_current :: "nat \<Rightarrow> dice_state \<times> 'a app_scheme \<Rightarrow> dice_state \<times> 'a app_scheme" where
  "roll_current r = (\<lambda>(d, a).
     (let a1 = a\<lparr>played := played a @ [''fx/roll.wav'']\<rparr>;
          a2 = a1\<lparr>shown := snd (play_column (interrupt_requested a1) DiceSheet (selected_index d) 4 23 False (shown a1))\<rparr>
      in if interrupt_requested a2 then
           (let d1 = d\<lparr>mode := Selection\<rparr> in (d1, show_selection d1 a2))
         else
           (let d1 = d\<lparr>last_result := Some r\<rparr>;
                a3 = a2\<lparr>shown := snd (play_column (interrupt_requested a2) ResultSheet (r - 1) 0 4 True (shown a2))\<rparr>;
                d2 = d1\<lparr>mode := Result\<rparr>
            in if r = 1 then (d2, a3\<lparr>played := played a3 @ [''fx/guardiandown.wav'']\<rparr>)
               else if r = MAX_VALS ! selected_index d2 then (d2, a3\<lparr>played := played a3 @ [''fx/crit.wav'']\<rparr>)
               else (d2, a3))))"

text \<open>The rewind of the \<^verbatim>\<open>B2_TAP\<close> branch: frames 3, 2, 1, 0 of the current die.\<close>

definition rewind :: "dice_state \<Rightarrow> 'a app_scheme \<Rightarrow> 'a app_scheme" where
  "rewind d a = a\<lparr>shown := shown a @ map (\<lambda>i. (DiceSheet, selected_index d, i)) (rev [0..<4])\<rparr>"

text \<open>\<^verbatim>\<open>DiceState.handle_event\<close>, called at clock reading \<open>now\<close>.\<close>

definition dice_handle_event ::
  "real \<Rightarrow> nat \<Rightarrow> gesture \<Rightarrow> dice_state \<times> 'a app_scheme \<Rightarrow> dice_state \<times> 'a app_scheme" where
  "dice_handle_event now r evt = (\<lambda>(d, a).
     if now < dice_settle_until d then (d, a)
     else if evt = DOUBLE B1 then
       (d, if interrupt_requested a then a\<lparr>interrupt_requested := False\<rparr> else a)
     else if evt = DOUBLE B2 then
       (let a1 = (if interrupt_requested a then a\<lparr>interrupt_requested := False\<rparr> else a);
            d1 = d\<lparr>selected_index := 0\<rparr>;
            d2 = d1\<lparr>mode := Selection\<rparr>
        in (d2, show_selection d2 a1))
     else if mode d = Selection then
       (if evt = TAP B1 then roll_current r (d, a)
        else if evt = TAP B2 then
          (let a1 = rewind d a;
               d1 = d\<lparr>selected_index := (selected_index d + 1) mod length dice_names\<rparr>
           in (d1, show_selection d1 a1))
        else (d, a))
     else if mode d = Result then
       (if evt = TAP B1 then roll_current r (d, play_result_strip 3 d a)
        else if evt = TAP B2 then
          (let a1 = play_result_strip 3 d a;
               d1 = d\<lparr>mode := Selection\<rparr>
           in (d1, show_selection d1 a1))
        else (d, a))
     else (d, a))"

text \<open>A run of events through the handler: clock reading, die outcome, gesture.\<close>

fun dice_events ::
  "(real \<times> nat \<times> gesture) list \<Rightarrow> dice_state \<times> 'a app_scheme \<Rightarrow> dice_state \<times> 'a app_scheme" where
  "dice_events [] c = c"
| "dice_events ((now, r, evt) # es) c = dice_events es (dice_handle_event now r evt c)"


section \<open>Concrete starting points\<close>

text \<open>An application context with nothing queued, shown or played, and the flags clear.\<close>

definition app0 :: app where
  "app0 = \<lparr> interrupt_requested = False, shutting_down = False, event_queue = [],
             last_hold_time = (\<lambda>_. 0), last_chord_time = 0,
             next_state = None, shown = [], played = [], display_inits = 0 \<rparr>"


text \<open>What the first wake request does to the application context.\<close>

definition woken :: "'a app_scheme \<Rightarrow> 'a app_scheme" where
  "woken a = a\<lparr>display_inits := display_inits a + 1, interrupt_requested := True,
               next_state := Some BootState\<rparr>"


section \<open>Claims about SleepState\<close>

text \<open>
  A property of the tap times alone: somewhere in the run there are five consecutive
  taps, each less than 600 ms after the one before it.
\<close>


fun five_in_a_row :: "real list \<Rightarrow> bool" where
  "five_in_a_row [] = False"
| "five_in_a_row (t # ts) =
     ((4 \<le> length ts \<and> within_window (6 / 10) (take 5 (t # ts))) \<or> five_in_a_row ts)"

lemma five_short: "length xs < 5 \<Longrightarrow> \<not> five_in_a_row xs"
  by (induction xs) auto

lemma within_append:
  "xs \<noteq> [] \<Longrightarrow> ys \<noteq> [] \<Longrightarrow>
   within_window w (xs @ ys) = (within_window w xs \<and> hd ys - last xs < w \<and> within_window w ys)"
proof (induction w xs rule: within_window.induct)
  case (1 w)
  then show ?case by simp
next
  case (2 w t)
  then show ?case by (cases ys) auto
next
  case (3 w t t' ts)
  then show ?case by auto
qed

lemma five_prefix:
  "length xs = 5 \<Longrightarrow> within_window (6 / 10) xs \<Longrightarrow> five_in_a_row (xs @ ys)"
  by (cases xs) auto

lemma five_skip:
  "ctx \<noteq> [] \<Longrightarrow> length ctx < 5 \<Longrightarrow> \<not> t - last ctx < 6 / 10 \<Longrightarrow>
   five_in_a_row (ctx @ t # ts) = five_in_a_row (t # ts)"
proof (induction ctx)
  case Nil
  then show ?case by simp
next
  case (Cons c cs)
  have sc: "4 - length cs = Suc (3 - length cs)" using Cons.prems(2) by simp
  have tk: "take 5 (c # cs @ t # ts) = (c # cs) @ t # take (4 - length (c # cs)) ts"
    using Cons.prems(2) by (simp add: sc)
  have nw: "\<not> within_window (6 / 10) (take 5 (c # cs @ t # ts))"
    unfolding tk using within_append[of "c # cs" "t # take (4 - length (c # cs)) ts" "6 / 10"]
      Cons.prems(3) by simp
  have step: "five_in_a_row ((c # cs) @ t # ts) = five_in_a_row (cs @ t # ts)"
    using nw by simp
  show ?case
  proof (cases cs)
    case Nil
    then show ?thesis using step by simp
  next
    case (Cons d ds)
    then have "cs \<noteq> []" "length cs < 5" "\<not> t - last cs < 6 / 10"
      using Cons.prems by auto
    from Cons.IH[OF this] step show ?thesis by simp
  qed
qed

lemma stays_woken:
  "wake_requested sl \<Longrightarrow>
   wake_requested (fst (sleep_taps ts (sl, a))) \<and> snd (sleep_taps ts (sl, a)) = a"
proof (induction ts arbitrary: sl)
  case Nil
  then show ?case by simp
next
  case (Cons t ts)
  obtain sl' a' where st: "sleep_handle_event t (TAP B1) (sl, a) = (sl', a')" by fastforce
  from st Cons.prems have "wake_requested sl'" "a' = a"
    by (auto simp: sleep_handle_event_def wake_def Let_def split: if_splits)
  with Cons.IH[of sl'] st show ?case by simp
qed

lemma taps_general:
  assumes "sleep_tap_window sl = 6 / 10" "\<forall>t\<in>set ts. settle_until sl \<le> t"
    "ctx \<noteq> []" "within_window (6 / 10) ctx" "length ctx = wake_taps sl"
    "last ctx = last_tap_time sl" "wake_taps sl < 5" "\<not> wake_requested sl"
  shows "(wake_requested (fst (sleep_taps ts (sl, a))) \<longleftrightarrow> five_in_a_row (ctx @ ts))
       \<and> snd (sleep_taps ts (sl, a)) = (if five_in_a_row (ctx @ ts) then woken a else a)"
  using assms
proof (induction ts arbitrary: sl ctx)
  case Nil
  then show ?case using five_short[of ctx] by simp
next
  case (Cons t ts)
  have ns: "\<not> t < settle_until sl" using Cons.prems(2) by simp
  have rest: "\<forall>u\<in>set ts. settle_until sl \<le> u" using Cons.prems(2) by simp
  show ?case
  proof (cases "t - last_tap_time sl < 6 / 10")
    case True
    have wc: "within_window (6 / 10) (ctx @ [t])"
      using within_append[of ctx "[t]" "6 / 10"] Cons.prems(3,4,6) True by simp
    show ?thesis
    proof (cases "wake_taps sl = 4")
      case four: True
      let ?sl' = "sl\<lparr>wake_taps := 5, last_tap_time := t, wake_requested := True\<rparr>"
      have st: "sleep_handle_event t (TAP B1) (sl, a) = (?sl', woken a)"
        using True ns four Cons.prems(1,8)
        by (simp add: sleep_handle_event_def wake_def woken_def Let_def)
      have five: "five_in_a_row (ctx @ t # ts)"
        using five_prefix[of "ctx @ [t]" ts] wc Cons.prems(5) four by simp
      from stays_woken[of ?sl' ts "woken a"] st five show ?thesis by simp
    next
      case nfour: False
      let ?sl' = "sl\<lparr>wake_taps := wake_taps sl + 1, last_tap_time := t\<rparr>"
      have st: "sleep_handle_event t (TAP B1) (sl, a) = (?sl', a)"
        using True ns nfour Cons.prems(1,7)
        by (simp add: sleep_handle_event_def Let_def)
      have "(wake_requested (fst (sleep_taps ts (?sl', a))) \<longleftrightarrow> five_in_a_row ((ctx @ [t]) @ ts))
         \<and> snd (sleep_taps ts (?sl', a)) = (if five_in_a_row ((ctx @ [t]) @ ts) then woken a else a)"
        using Cons.prems nfour wc rest by (intro Cons.IH) simp_all
      then show ?thesis using st by simp
    qed
  next
    case False
    let ?sl' = "sl\<lparr>wake_taps := 1, last_tap_time := t\<rparr>"
    have st: "sleep_handle_event t (TAP B1) (sl, a) = (?sl', a)"
      using False ns Cons.prems(1)
      by (simp add: sleep_handle_event_def Let_def)
    have sk: "five_in_a_row (ctx @ t # ts) = five_in_a_row (t # ts)"
      using five_skip[of ctx t ts] Cons.prems(3,5,6,7) False by simp
    have "(wake_requested (fst (sleep_taps ts (?sl', a))) \<longleftrightarrow> five_in_a_row ([t] @ ts))
         \<and> snd (sleep_taps ts (?sl', a)) = (if five_in_a_row ([t] @ ts) then woken a else a)"
      using Cons.prems rest by (intro Cons.IH) simp_all
    then show ?thesis using st sk by simp
  qed
qed

lemma taps_fresh:
  assumes "\<forall>t\<in>set ts. t0 + 5 / 10 \<le> t"
  shows "(wake_requested (fst (sleep_taps ts (sleep_init t0, a))) \<longleftrightarrow> five_in_a_row ts)
       \<and> snd (sleep_taps ts (sleep_init t0, a)) = (if five_in_a_row ts then woken a else a)"
proof (cases ts)
  case Nil
  then show ?thesis by (simp add: sleep_init_def)
next
  case (Cons t ts')
  let ?sl' = "(sleep_init t0)\<lparr>wake_taps := 1, last_tap_time := t\<rparr>"
  have ns: "\<not> t < t0 + 5 / 10" using assms Cons by simp
  have st: "sleep_handle_event t (TAP B1) (sleep_init t0, a) = (?sl', a)"
    using ns by (simp add: sleep_handle_event_def sleep_init_def Let_def)
  have "(wake_requested (fst (sleep_taps ts' (?sl', a))) \<longleftrightarrow> five_in_a_row ([t] @ ts'))
       \<and> snd (sleep_taps ts' (?sl', a)) = (if five_in_a_row ([t] @ ts') then woken a else a)"
    using assms Cons by (intro taps_general) (simp_all add: sleep_init_def)
  then show ?thesis using st Cons by simp
qed

lemma wake_sets: "wake_requested (fst (wake (sl, a)))"
  by (simp add: wake_def)

lemma taps_run:
  "sleep_tap_window sl = w \<Longrightarrow> \<forall>t\<in>set ts. settle_until sl \<le> t \<Longrightarrow>
   within_window w (last_tap_time sl # ts) \<Longrightarrow> (wake_requested sl \<longleftrightarrow> 5 \<le> wake_taps sl) \<Longrightarrow>
   wake_taps (fst (sleep_taps ts (sl, a))) = wake_taps sl + length ts
   \<and> (wake_requested (fst (sleep_taps ts (sl, a))) \<longleftrightarrow> 5 \<le> wake_taps sl + length ts)
   \<and> snd (sleep_taps ts (sl, a)) =
       (if wake_taps sl < 5 \<and> 5 \<le> wake_taps sl + length ts then woken a else a)"
proof (induction ts arbitrary: sl a)
  case Nil
  then show ?case by auto
next
  case (Cons t ts)
  obtain sl' a' where st: "sleep_handle_event t (TAP B1) (sl, a) = (sl', a')" by fastforce
  have inw: "t - last_tap_time sl < w" and rest: "within_window w (t # ts)"
    using Cons.prems(3) by simp_all
  have ns: "\<not> t < settle_until sl" using Cons.prems(2) by simp
  from st inw ns Cons.prems(1,4)
  have f: "wake_taps sl' = wake_taps sl + 1" "last_tap_time sl' = t" "sleep_tap_window sl' = w"
      "settle_until sl' = settle_until sl" "wake_requested sl' \<longleftrightarrow> 5 \<le> wake_taps sl'"
      "a' = (if wake_taps sl = 4 then woken a else a)"
    by (auto simp: sleep_handle_event_def wake_def woken_def Let_def split: if_splits)
  have "\<forall>t\<in>set ts. settle_until sl' \<le> t" using Cons.prems(2) f(4) by simp
  from Cons.IH[OF f(3) this _ f(5), of a'] rest f(1,2,6) st
  show ?case by auto
qed




text \<open>
  Claim C7. While Sleep is active: a gesture handled before the settle window ends changes
  nothing. After it, \<^verbatim>\<open>B1_5TAP\<close> wakes: unless a wake is already in progress it sets
  \<open>wake_requested\<close>, re-initialises the display, raises the interrupt flag and asks for
  BootState; gestures other than \<^verbatim>\<open>B1_5TAP\<close> and \<^verbatim>\<open>B1_TAP\<close> change nothing; and a
  \<^verbatim>\<open>B1_TAP\<close> handled 600 ms or more after the tap before it restarts the count at 1.
  A fresh Sleep that receives any run of \<^verbatim>\<open>B1_TAP\<close>s after the settle window has woken
  exactly when the run contains five consecutive taps each less than 600 ms after the
  one before, so it wakes on the fifth tap of the first such stretch, and the
  application context then carries exactly one wake however many taps follow. When
  every tap of the run is inside the window, every one is counted and the wake comes
  exactly with the fifth. A wake request while one is already in progress changes
  nothing.
\<close>

theorem sleep_wake_protocol:
  "(now < settle_until sl \<longrightarrow> sleep_handle_event now evt (sl, a) = (sl, a))
   \<and> (settle_until sl \<le> now \<longrightarrow>
        sleep_handle_event now (FIVETAP B1) (sl, a) =
          (if wake_requested sl then (sl, a) else (sl\<lparr>wake_requested := True\<rparr>, woken a)))
   \<and> (settle_until sl \<le> now \<and> evt \<noteq> FIVETAP B1 \<and> evt \<noteq> TAP B1 \<longrightarrow>
        sleep_handle_event now evt (sl, a) = (sl, a))
   \<and> (settle_until sl \<le> now \<and> \<not> now - last_tap_time sl < sleep_tap_window sl \<longrightarrow>
        sleep_handle_event now (TAP B1) (sl, a) = (sl\<lparr>wake_taps := 1, last_tap_time := now\<rparr>, a))
   \<and> ((\<forall>t\<in>set ts. t0 + 5 / 10 \<le> t) \<longrightarrow>
        (wake_requested (fst (sleep_taps ts (sleep_init t0, a))) \<longleftrightarrow> five_in_a_row ts)
        \<and> snd (sleep_taps ts (sleep_init t0, a)) = (if five_in_a_row ts then woken a else a))
   \<and> ((\<forall>t\<in>set ts. t0 + 5 / 10 \<le> t) \<and> within_window (6 / 10) ts \<longrightarrow>
        wake_taps (fst (sleep_taps ts (sleep_init t0, a))) = length ts
        \<and> (wake_requested (fst (sleep_taps ts (sleep_init t0, a))) \<longleftrightarrow> 5 \<le> length ts)
        \<and> snd (sleep_taps ts (sleep_init t0, a)) = (if 5 \<le> length ts then woken a else a))
   \<and> wake (sl, a) = (if wake_requested sl then (sl, a) else (sl\<lparr>wake_requested := True\<rparr>, woken a))"
proof (intro conjI impI)
  assume "now < settle_until sl"
  then show "sleep_handle_event now evt (sl, a) = (sl, a)"
    by (simp add: sleep_handle_event_def)
next
  assume "settle_until sl \<le> now"
  then show "sleep_handle_event now (FIVETAP B1) (sl, a) =
          (if wake_requested sl then (sl, a) else (sl\<lparr>wake_requested := True\<rparr>, woken a))"
    by (simp add: sleep_handle_event_def wake_def woken_def)
next
  assume "settle_until sl \<le> now \<and> evt \<noteq> FIVETAP B1 \<and> evt \<noteq> TAP B1"
  then show "sleep_handle_event now evt (sl, a) = (sl, a)"
    by (simp add: sleep_handle_event_def)
next
  assume "settle_until sl \<le> now \<and> \<not> now - last_tap_time sl < sleep_tap_window sl"
  then show "sleep_handle_event now (TAP B1) (sl, a) = (sl\<lparr>wake_taps := 1, last_tap_time := now\<rparr>, a)"
    by (simp add: sleep_handle_event_def Let_def)
next
  show "wake (sl, a) = (if wake_requested sl then (sl, a) else (sl\<lparr>wake_requested := True\<rparr>, woken a))"
    by (simp add: wake_def woken_def)
next
  assume h: "\<forall>t\<in>set ts. t0 + 5 / 10 \<le> t"
  from taps_fresh[OF h, of a]
  show "wake_requested (fst (sleep_taps ts (sleep_init t0, a))) \<longleftrightarrow> five_in_a_row ts"
    and "snd (sleep_taps ts (sleep_init t0, a)) = (if five_in_a_row ts then woken a else a)"
    by simp_all
next
  assume h: "(\<forall>t\<in>set ts. t0 + 5 / 10 \<le> t) \<and> within_window (6 / 10) ts"
  have "wake_taps (fst (sleep_taps ts (sleep_init t0, a))) = length ts
        \<and> (wake_requested (fst (sleep_taps ts (sleep_init t0, a))) \<longleftrightarrow> 5 \<le> length ts)
        \<and> snd (sleep_taps ts (sleep_init t0, a)) = (if 5 \<le> length ts then woken a else a)"
  proof (cases ts)
    case Nil
    then show ?thesis by (simp add: sleep_init_def)
  next
    case (Cons t ts')
    obtain sl' a' where st: "sleep_handle_event t (TAP B1) (sleep_init t0, a) = (sl', a')" by fastforce
    have ns: "\<not> t < t0 + 5 / 10" using h Cons by simp
    from st ns have f: "wake_taps sl' = 1" "last_tap_time sl' = t" "sleep_tap_window sl' = 6 / 10"
      "settle_until sl' = t0 + 5 / 10" "wake_requested sl' \<longleftrightarrow> 5 \<le> wake_taps sl'" "a' = a"
      by (auto simp: sleep_handle_event_def sleep_init_def Let_def split: if_splits)
    have a1: "\<forall>t\<in>set ts'. settle_until sl' \<le> t" using h Cons f(4) by simp
    have a2: "within_window (6 / 10) (last_tap_time sl' # ts')" using h Cons f(2) by simp
    from taps_run[OF f(3) a1 a2 f(5), of a'] f(1,6) st Cons show ?thesis by auto
  qed
  then show "wake_taps (fst (sleep_taps ts (sleep_init t0, a))) = length ts"
    and "wake_requested (fst (sleep_taps ts (sleep_init t0, a))) \<longleftrightarrow> 5 \<le> length ts"
    and "snd (sleep_taps ts (sleep_init t0, a)) = (if 5 \<le> length ts then woken a else a)"
    by simp_all
qed

theorem sleep_wake_protocol_witness:
  "sleep_handle_event (51 / 5) (TAP B1) (sleep_init 10, app0) = (sleep_init 10, app0)
   \<and> sleep_handle_event 11 (FIVETAP B1) (sleep_init 10, app0)
        = ((sleep_init 10)\<lparr>wake_requested := True\<rparr>, woken app0)
   \<and> sleep_handle_event 11 (DOUBLE B2) (sleep_init 10, app0) = (sleep_init 10, app0)
   \<and> wake_requested (fst (sleep_taps [11, 23 / 2, 12, 25 / 2, 13] (sleep_init 10, app0)))
   \<and> \<not> wake_requested (fst (sleep_taps [11, 23 / 2, 12, 25 / 2] (sleep_init 10, app0)))
   \<and> \<not> wake_requested (fst (sleep_taps [11, 21, 31, 41, 51] (sleep_init 10, app0)))
   \<and> \<not> wake_requested (fst (sleep_taps [11, 23 / 2, 12, 25 / 2, 20, 41 / 2, 21, 43 / 2]
                                (sleep_init 10, app0)))
   \<and> snd (sleep_taps [11, 23 / 2, 12, 25 / 2, 13, 27 / 2] (sleep_init 10, app0)) = woken app0
   \<and> wake ((sleep_init 10)\<lparr>wake_requested := True\<rparr>, app0)
        = ((sleep_init 10)\<lparr>wake_requested := True\<rparr>, app0)"
proof -
  note p = sleep_wake_protocol[where ?t0.0 = 10 and a = app0]
  have 1: "sleep_handle_event (51 / 5) (TAP B1) (sleep_init 10, app0) = (sleep_init 10, app0)"
    using p[where now = "51 / 5" and sl = "sleep_init 10" and evt = "TAP B1" and ts = "[]"]
    by (simp add: sleep_init_def)
  have 2: "sleep_handle_event 11 (FIVETAP B1) (sleep_init 10, app0)
        = ((sleep_init 10)\<lparr>wake_requested := True\<rparr>, woken app0)"
    and 3: "sleep_handle_event 11 (DOUBLE B2) (sleep_init 10, app0) = (sleep_init 10, app0)"
    using p[where now = 11 and sl = "sleep_init 10" and evt = "DOUBLE B2" and ts = "[]"]
    by (simp_all add: sleep_init_def)
  have 4: "wake_requested (fst (sleep_taps [11, 23 / 2, 12, 25 / 2, 13] (sleep_init 10, app0)))"
    using p[where now = 11 and sl = "sleep_init 10" and evt = "TAP B1"
        and ts = "[11, 23 / 2, 12, 25 / 2, 13]"]
    by simp
  have 5: "\<not> wake_requested (fst (sleep_taps [11, 23 / 2, 12, 25 / 2] (sleep_init 10, app0)))"
    using p[where now = 11 and sl = "sleep_init 10" and evt = "TAP B1"
        and ts = "[11, 23 / 2, 12, 25 / 2]"]
    by simp
  have 6: "\<not> wake_requested (fst (sleep_taps [11, 21, 31, 41, 51] (sleep_init 10, app0)))"
    using p[where now = 11 and sl = "sleep_init 10" and evt = "TAP B1"
        and ts = "[11, 21, 31, 41, 51]"]
    by simp
  have 7: "\<not> wake_requested (fst (sleep_taps [11, 23 / 2, 12, 25 / 2, 20, 41 / 2, 21, 43 / 2]
                                (sleep_init 10, app0)))"
    using p[where now = 11 and sl = "sleep_init 10" and evt = "TAP B1"
        and ts = "[11, 23 / 2, 12, 25 / 2, 20, 41 / 2, 21, 43 / 2]"]
    by simp
  have 8: "snd (sleep_taps [11, 23 / 2, 12, 25 / 2, 13, 27 / 2] (sleep_init 10, app0)) = woken app0"
    using p[where now = 11 and sl = "sleep_init 10" and evt = "TAP B1"
        and ts = "[11, 23 / 2, 12, 25 / 2, 13, 27 / 2]"]
    by simp
  have 9: "wake ((sleep_init 10)\<lparr>wake_requested := True\<rparr>, app0)
        = ((sleep_init 10)\<lparr>wake_requested := True\<rparr>, app0)"
    using p[where now = 11 and sl = "(sleep_init 10)\<lparr>wake_requested := True\<rparr>" and evt = "TAP B1"
        and ts = "[]"]
    by simp
  from 1 2 3 4 5 6 7 8 9 show ?thesis by blast
qed


section \<open>Claims about DiceState\<close>

lemma show_selection_clear:
  "\<not> interrupt_requested a \<Longrightarrow>
   show_selection d a = a\<lparr>shown := shown a @ [(DiceSheet, selected_index d, 0), (DiceSheet, selected_index d, 1),
      (DiceSheet, selected_index d, 2), (DiceSheet, selected_index d, 3), (DiceSheet, selected_index d, 3)]\<rparr>"
  by (simp add: show_selection_def play_column_def play_loop.simps Let_def)


text \<open>
  Claim C9, as stated, at a concrete input: Dice is entered at 0; \<^verbatim>\<open>B2_TAP\<close> at 1 s
  selects the d12, \<^verbatim>\<open>B1_TAP\<close> at 2 s rolls a 3, and \<^verbatim>\<open>B1_DOUBLE\<close> at 3 s, long after
  the settle window, leaves the d12 selected and Dice in Result mode.
\<close>

theorem dice_b1_double_ignored:
  "(case dice_events [(1, 0, TAP B2), (2, 3, TAP B1), (3, 0, DOUBLE B1)] (dice_init 0, app0) of
      (d', a') \<Rightarrow> selected_index d' = 1 \<and> mode d' = Result)"
  by (simp add: dice_handle_event_def dice_init_def app0_def roll_current_def rewind_def
      show_selection_def play_column_def play_loop.simps Let_def MAX_VALS_def dice_names_def)


text \<open>
  Claim C9, amended. While Dice is active and its settle window has expired,
  \<^verbatim>\<open>B2_DOUBLE\<close> selects index 0 (the d20), puts Dice in Selection mode, clears the
  interrupt flag and shows the preview frames 0..3 of column 0, holding the last;
  \<^verbatim>\<open>B1_DOUBLE\<close> changes neither the selection nor the mode: it only clears the
  interrupt flag.
\<close>

theorem dice_double:
  "dice_settle_until d \<le> now \<Longrightarrow>
   (case dice_handle_event now r (DOUBLE B2) (d, a) of
      (d', a') \<Rightarrow> selected_index d' = 0 \<and> mode d' = Selection \<and> \<not> interrupt_requested a'
         \<and> shown a' = shown a @ [(DiceSheet, 0, 0), (DiceSheet, 0, 1), (DiceSheet, 0, 2),
                                  (DiceSheet, 0, 3), (DiceSheet, 0, 3)])
   \<and> dice_handle_event now r (DOUBLE B1) (d, a) = (d, a\<lparr>interrupt_requested := False\<rparr>)"
  by (simp add: dice_handle_event_def show_selection_clear Let_def)

theorem dice_double_witness:
  "(case dice_handle_event 2 1 (DOUBLE B2) (dice_init 0, app0) of
      (d', a') \<Rightarrow> selected_index d' = 0 \<and> mode d' = Selection \<and> \<not> interrupt_requested a'
         \<and> shown a' = [(DiceSheet, 0, 0), (DiceSheet, 0, 1), (DiceSheet, 0, 2),
                                  (DiceSheet, 0, 3), (DiceSheet, 0, 3)])
   \<and> dice_handle_event 2 1 (DOUBLE B1) (dice_init 0, app0) = (dice_init 0, app0)"
  using dice_double[where d="dice_init 0" and now=2 and r=1 and a=app0]
  by (simp add: dice_init_def app0_def)


section \<open>StateManager (ghost.py, lines 390--427)\<close>

text \<open>The state objects: only Sleep, Shutdown and Dice carry fields.\<close>

datatype state =
  Boot | Idle | Sing | Sleep sleep_state | Shutdown bool | Story | Dice dice_state | Quip

record system = app +
  state :: "state option"
  thread_alive :: bool

text \<open>\<^verbatim>\<open>state_cls()\<close>, constructed at clock reading \<open>now\<close>.\<close>

definition construct :: "real \<Rightarrow> state_cls \<Rightarrow> state" where
  "construct now cls =
     (case cls of
        BootState \<Rightarrow> Boot
      | IdleState \<Rightarrow> Idle
      | SingState \<Rightarrow> Sing
      | SleepState \<Rightarrow> Sleep (sleep_init now)
      | ShutdownState \<Rightarrow> Shutdown False
      | StoryState \<Rightarrow> Story
      | DiceState \<Rightarrow> Dice (dice_init now)
      | QuipState \<Rightarrow> Quip)"

text \<open>
  \<^verbatim>\<open>self.thread.join()\<close> waits for the run body of the state being left, with the
  interrupt flag raised. The bodies of Boot, Idle, Sing, Story, Dice and Quip leave their
  loops on the flag; the bodies of Sleep and Shutdown never read it: Sleep's loop ends on
  \<^verbatim>\<open>shutting_down\<close> or its own \<^verbatim>\<open>wake_requested\<close>, Shutdown's on \<^verbatim>\<open>shutting_down\<close>.
  With no other context to set these, the join of such a body does not return.
\<close>

definition run_ends :: "'a system_scheme \<Rightarrow> bool" where
  "run_ends m =
     (case state m of
        Some (Sleep sl) \<Rightarrow> shutting_down m \<or> wake_requested sl
      | Some (Shutdown req) \<Rightarrow> shutting_down m
      | _ \<Rightarrow> True)"

text \<open>What a returning body leaves in the manager: all but Idle, Sleep and Shutdown end
  with \<^verbatim>\<open>manager.next_state = IdleState\<close>.\<close>

definition join :: "'a system_scheme \<Rightarrow> 'a system_scheme option" where
  "join m =
     (if \<not> run_ends m then None
      else Some (case state m of
                   None \<Rightarrow> m\<lparr>thread_alive := False\<rparr>
                 | Some Idle \<Rightarrow> m\<lparr>thread_alive := False\<rparr>
                 | Some (Sleep sl) \<Rightarrow> m\<lparr>thread_alive := False\<rparr>
                 | Some (Shutdown req) \<Rightarrow> m\<lparr>thread_alive := False\<rparr>
                 | Some _ \<Rightarrow> m\<lparr>thread_alive := False, next_state := Some IdleState\<rparr>))"

text \<open>The loop \<^verbatim>\<open>while True: event_queue.get_nowait()\<close>, left by the Empty exception.\<close>

fun drain :: "gesture list \<Rightarrow> gesture list" where
  "drain [] = []"
| "drain (e # q) = drain q"

text \<open>
  \<^verbatim>\<open>StateManager.set_state\<close>, called at clock reading \<open>now\<close>; \<open>sim\<close> is the module's
  \<^verbatim>\<open>SIM\<close> and \<open>caller_is_thread\<close> says whether the caller is the state's own thread.
  The result is \<open>None\<close> when the call never returns. Outside the simulator the new
  body is started on a new thread as the last step.
\<close>

definition set_state ::
  "bool \<Rightarrow> real \<Rightarrow> bool \<Rightarrow> state_cls \<Rightarrow> 'a system_scheme \<Rightarrow> 'a system_scheme option" where
  "set_state sim now caller_is_thread state_cls m =
     (let m1 = m\<lparr>interrupt_requested := True\<rparr>
      in case (if thread_alive m1 \<and> \<not> caller_is_thread then join m1 else Some m1) of
           None \<Rightarrow> None
         | Some m2 \<Rightarrow>
            (let m3 = m2\<lparr>interrupt_requested := False\<rparr>;
                 m4 = m3\<lparr>event_queue := drain (event_queue m3)\<rparr>;
                 m5 = m4\<lparr>state := Some (construct now state_cls)\<rparr>
             in Some (m5\<lparr>thread_alive := \<not> sim\<rparr>)))"

section \<open>Audio playback (ghost.py, lines 352--385; hw/audio.py, lines 43--93)\<close>

text \<open>
  Time during a playback is counted in polls of 50 ms, the period of the fallback's
  loop. A clip lasts \<open>dur\<close> polls, and \<open>intr k\<close> is the interrupt flag at poll \<open>k\<close>
  after the call. The outcome says when the caller got control back and whether the
  stream was stopped.
\<close>

datatype play_result = NotPlayed | Finished nat | Interrupted nat

text \<open>What the call meets outside the program: whether the file exists, the module's
  \<^verbatim>\<open>SIM\<close>, whether the player process can be started, and whether the adapter or the
  fallback raises.\<close>

record audio_env =
  path_exists :: bool
  SIM :: bool
  player_starts :: bool
  adapter_raises :: bool
  pygame_raises :: bool

text \<open>
  \<^verbatim>\<open>hw_audio.play_wav\<close>: starts the player process and waits for it to exit
  (\<^verbatim>\<open>_play_proc.wait()\<close>). It takes no \<^verbatim>\<open>interruptable\<close> argument and reads no flag. A
  player that cannot be started is logged and the call returns; the adapter catches
  what its own steps raise, so \<open>Inl\<close>, an exception reaching the caller, is kept only
  because \<^verbatim>\<open>play_audio\<close> provides for it. No other playback is started while this one
  runs (a second \<^verbatim>\<open>play_wav\<close> would terminate the first player).
\<close>

definition play_wav :: "audio_env \<Rightarrow> nat \<Rightarrow> unit + play_result" where
  "play_wav env dur =
     (if adapter_raises env then Inl ()
      else if \<not> player_starts env then Inr NotPlayed
      else Inr (Finished dur))"

text \<open>The fallback's loop \<^verbatim>\<open>while audio_channel.get_busy()\<close>, at poll \<open>k\<close>.\<close>

function poll_busy :: "bool \<Rightarrow> (nat \<Rightarrow> bool) \<Rightarrow> nat \<Rightarrow> nat \<Rightarrow> play_result" where
  "poll_busy interruptable intr dur k =
     (if k < dur then
        (if interruptable \<and> intr k then Interrupted k
         else poll_busy interruptable intr dur (k + 1))
      else Finished k)"
  by pat_completeness auto
termination
  by (relation "measure (\<lambda>(interruptable, intr, dur, k). dur - k)") auto

declare poll_busy.simps [simp del]

text \<open>\<^verbatim>\<open>play_audio(filename, interruptable)\<close>: the adapter first; the fallback only when
  the adapter raised, and only on the Pi.\<close>

definition play_audio :: "audio_env \<Rightarrow> bool \<Rightarrow> nat \<Rightarrow> (nat \<Rightarrow> bool) \<Rightarrow> play_result" where
  "play_audio env interruptable dur intr =
     (if \<not> path_exists env then NotPlayed
      else case play_wav env dur of
             Inr r \<Rightarrow> r
           | Inl _ \<Rightarrow>
               if SIM env then NotPlayed
               else if pygame_raises env then NotPlayed
               else poll_busy interruptable intr dur 0)"

section \<open>Claims about the state manager\<close>



text \<open>A manager in Sing, its thread running, with two gestures queued.\<close>

definition sys0 :: system where
  "sys0 = \<lparr> interrupt_requested = False, shutting_down = False, event_queue = [TAP B1, CHORD],
             last_hold_time = (\<lambda>_. 0), last_chord_time = 0,
             next_state = None, shown = [], played = [], display_inits = 0,
             state = Some Sing, thread_alive = True \<rparr>"




text \<open>A chord during Sing: the Sing body returns on the flag, and Dice is entered.\<close>

lemma set_state_example:
  "set_state False 5 False DiceState sys0 =
     Some (sys0\<lparr>event_queue := [], state := Some (Dice (dice_init 5)), next_state := Some IdleState\<rparr>)"
  by (simp add: set_state_def join_def run_ends_def sys0_def construct_def Let_def)


section \<open>Claims about audio playback\<close>

text \<open>On the adapter's path the caller is blocked for the whole clip, whatever the
  interrupt flag does and whether or not the call is interruptable.\<close>

lemma play_audio_waits_for_clip:
  "path_exists env \<Longrightarrow> \<not> adapter_raises env \<Longrightarrow> player_starts env \<Longrightarrow>
   play_audio env interruptable dur intr = Finished dur"
  by (simp add: play_audio_def play_wav_def)

text \<open>The fallback (the adapter raised, on the Pi) does stop on the flag.\<close>

lemma play_audio_fallback_interrupted:
  "play_audio \<lparr>path_exists = True, SIM = False, player_starts = True, adapter_raises = True,
               pygame_raises = False\<rparr>
     True 100 (\<lambda>k. 10 \<le> k) = Interrupted 10"
  by (simp add: play_audio_def play_wav_def poll_busy.simps)

text \<open>
  Claim C5, at a failing input: an interruptable playback of an existing clip of 100
  polls (5 s) through the working adapter, the interrupt flag set from poll 10 (0.5 s)
  on. The call returns at poll 100, when the clip has finished; the stream is not
  stopped.
\<close>

theorem play_audio_at_failing_input:
  "play_audio \<lparr>path_exists = True, SIM = False, player_starts = True, adapter_raises = False,
               pygame_raises = False\<rparr>
     True 100 (\<lambda>k. 10 \<le> k) = Finished 100"
  by (simp add: play_audio_def play_wav_def)

section \<open>The edge classifier: input-monitor loop (ghost.py, lines 76--88 and 1084--1371)\<close>

text \<open>
  One pass of the loop \<^verbatim>\<open>while not shutting_down.is_set()\<close> is the function \<open>step\<close>.
  Its inputs are what the pass reads from outside: the edge that
  \<^verbatim>\<open>edge_queue.get(timeout=0.05)\<close> delivers, if any, as (button, press or release, timestamp);
  the monotonic clock; and the raw levels of the two pins. Nothing in a pass blocks after
  the \<^verbatim>\<open>get\<close>, so all clock readings of one pass are taken to be the same reading, and
  so are the pin levels read at the one-time initialisation and right after it. Times
  are in seconds, pulse lengths in milliseconds, as in the source.
\<close>

abbreviation MIN_PULSE_MS :: real where "MIN_PULSE_MS \<equiv> 20"
abbreviation TAP_DECISION :: real where "TAP_DECISION \<equiv> 70 / 100"
abbreviation CHORD_GRACE_MS :: real where "CHORD_GRACE_MS \<equiv> 180"
abbreviation CHORD_TAP_SUPPRESS_WINDOW :: real where "CHORD_TAP_SUPPRESS_WINDOW \<equiv> 75 / 100"
abbreviation hold_cooldown_sec :: real where "hold_cooldown_sec \<equiv> 15 / 10"
abbreviation CHORD_TIMEOUT :: real where "CHORD_TIMEOUT \<equiv> 1"
abbreviation RESYNC_SAMPLE_MS :: real where "RESYNC_SAMPLE_MS \<equiv> 30"
abbreviation RESYNC_COOLDOWN_MS :: real where "RESYNC_COOLDOWN_MS \<equiv> 120"

fun HOLD_MS_BY_BTN :: "button \<Rightarrow> real" where
  "HOLD_MS_BY_BTN B1 = 800"
| "HOLD_MS_BY_BTN B2 = 3000"

fun other :: "button \<Rightarrow> button" where
  "other B1 = B2"
| "other B2 = B1"

text \<open>The locals of \<^verbatim>\<open>input_monitor\<close>, with the three dictionaries it keeps as
  attributes of the function for the resync, on top of the globals. \<open>resync_init\<close>
  says whether these attributes exist yet; until the first pass creates them their
  values here are never read.\<close>

record monitor = globals +
  press_time :: "button \<Rightarrow> real option"
  tap_count :: "button \<Rightarrow> nat"
  decide_at :: "button \<Rightarrow> real option"
  down :: "button \<Rightarrow> bool"
  tap_suppress_until :: "button \<Rightarrow> real"
  chord_armed :: bool
  chord_pending :: bool
  chord_detect_time :: "real option"
  resync_init :: bool
  last_raw :: "button \<Rightarrow> bool"
  raw_stable_since :: "button \<Rightarrow> real"
  last_synth_time :: "button \<Rightarrow> real"

definition monitor_init :: monitor where
  "monitor_init =
     \<lparr> interrupt_requested = False, shutting_down = False, event_queue = [],
       last_hold_time = (\<lambda>b. 0), last_chord_time = 0,
       press_time = (\<lambda>b. None), tap_count = (\<lambda>b. 0), decide_at = (\<lambda>b. None),
       down = (\<lambda>b. False), tap_suppress_until = (\<lambda>b. 0),
       chord_armed = True, chord_pending = False, chord_detect_time = None,
       resync_init = False, last_raw = (\<lambda>b. False), raw_stable_since = (\<lambda>b. 0),
       last_synth_time = (\<lambda>b. 0) \<rparr>"

text \<open>\<^verbatim>\<open>emit\<close>, that is \<^verbatim>\<open>post_event\<close>: the queue is unbounded, the put never fails.\<close>

definition emit :: "gesture \<Rightarrow> monitor \<Rightarrow> monitor" where
  "emit evt s = s\<lparr>event_queue := event_queue s @ [evt]\<rparr>"

definition chord_recent :: "real \<Rightarrow> monitor \<Rightarrow> bool" where
  "chord_recent clock s \<longleftrightarrow> clock - last_chord_time s < CHORD_TAP_SUPPRESS_WINDOW"

definition decide :: "button \<Rightarrow> monitor \<Rightarrow> monitor" where
  "decide b s =
     (let n = tap_count s b;
          s1 = s\<lparr>tap_count := (tap_count s)(b := 0)\<rparr>;
          s2 = s1\<lparr>decide_at := (decide_at s1)(b := None)\<rparr>
      in if b = B1 \<and> n \<ge> 5 then emit (FIVETAP B1) s2
         else if b = B2 \<and> n \<ge> 5 then emit (FIVETAP B2) s2
         else if n \<ge> 2 then emit (DOUBLE b) s2
         else if n = 1 then emit (TAP b) s2
         else s2)"

subsection \<open>A real edge (step 2 of the pass)\<close>

definition on_press :: "button \<Rightarrow> real \<Rightarrow> real \<Rightarrow> monitor \<Rightarrow> monitor" where
  "on_press btn t clock s =
     (let s1 = s\<lparr>down := (down s)(btn := True)\<rparr>;
          s2 = s1\<lparr>press_time := (press_time s1)(btn := Some t)\<rparr>
      in case press_time s2 (other btn) of
           None \<Rightarrow> s2
         | Some t_other \<Rightarrow>
            if down s2 (other btn) then
              (let dt = \<bar>t - t_other\<bar>
               in if dt \<le> CHORD_GRACE_MS / 1000 \<and> chord_armed s2
                  then s2\<lparr>chord_pending := True, chord_detect_time := Some clock,
                          chord_armed := False\<rparr>
                  else s2)
            else s2)"

text \<open>The block "Re-arm chord once both are up", after a real release.\<close>

definition release_chord :: "real \<Rightarrow> monitor \<Rightarrow> monitor" where
  "release_chord clock s =
     (if \<not> down s B1 \<and> \<not> down s B2 then
        (let s1 = (if chord_pending s then
                     (emit CHORD s)
                       \<lparr>tap_count := (tap_count s)(B1 := 0, B2 := 0),
                        decide_at := (decide_at s)(B1 := None, B2 := None),
                        last_chord_time := clock,
                        chord_pending := False,
                        chord_detect_time := None\<rparr>
                   else s)
         in s1\<lparr>chord_armed := True\<rparr>)
      else s)"

text \<open>The chain "Ignore very short blips / HOLD? / count a tap", after a real release
  at (clamped) timestamp \<open>t\<close>.\<close>

definition classify_pulse :: "button \<Rightarrow> real \<Rightarrow> real \<Rightarrow> real \<Rightarrow> monitor \<Rightarrow> monitor" where
  "classify_pulse btn t pulse_ms clock s =
     (if pulse_ms < MIN_PULSE_MS then s
      else if pulse_ms \<ge> HOLD_MS_BY_BTN btn then
        (let s1 = s\<lparr>tap_count := (tap_count s)(btn := 0)\<rparr>;
             s2 = s1\<lparr>decide_at := (decide_at s1)(btn := None)\<rparr>;
             s3 = s2\<lparr>tap_suppress_until := (tap_suppress_until s2)(btn := clock + hold_cooldown_sec)\<rparr>;
             s4 = s3\<lparr>last_hold_time := (last_hold_time s3)(btn := clock)\<rparr>
         in if btn = B1 then (if chord_recent clock s4 then s4 else emit (HOLD B1) s4)
            else emit (HOLD btn) s4)
      else if \<not> chord_pending s \<and> \<not> chord_recent clock s then
        (if clock \<ge> tap_suppress_until s btn
         then s\<lparr>tap_count := (tap_count s)(btn := tap_count s btn + 1),
                decide_at := (decide_at s)(btn := Some (t + TAP_DECISION))\<rparr>
         else s)
      else s)"

definition on_release :: "button \<Rightarrow> real \<Rightarrow> real \<Rightarrow> monitor \<Rightarrow> monitor" where
  "on_release btn t clock s =
     (case press_time s btn of
        None \<Rightarrow>
          s\<lparr>down := (down s)(btn := False),
            press_time := (press_time s)(btn := None),
            decide_at := (decide_at s)(btn := None),
            tap_count := (tap_count s)(btn := 0)\<rparr>
      | Some p \<Rightarrow>
         (let t1 = (if t < p then p else t);
              pulse_ms = (t1 - p) * 1000;
              s1 = s\<lparr>down := (down s)(btn := False)\<rparr>;
              s2 = s1\<lparr>press_time := (press_time s1)(btn := None)\<rparr>;
              s3 = release_chord clock s2
          in classify_pulse btn t1 pulse_ms clock s3))"

definition process_edge :: "(button \<times> bool \<times> real) option \<Rightarrow> real \<Rightarrow> monitor \<Rightarrow> monitor" where
  "process_edge e clock s =
     (case e of
        None \<Rightarrow> s
      | Some (btn, is_press, t) \<Rightarrow>
          if is_press then on_press btn t clock s else on_release btn t clock s)"

subsection \<open>Deferred decisions and the chord timeout (steps 3 and 4)\<close>

definition finalize_one :: "real \<Rightarrow> button \<Rightarrow> monitor \<Rightarrow> monitor" where
  "finalize_one now2 b s =
     (case decide_at s b of
        None \<Rightarrow> s
      | Some d \<Rightarrow>
         if now2 \<ge> d then
           (if now2 - last_chord_time s < CHORD_TAP_SUPPRESS_WINDOW
            then s\<lparr>tap_count := (tap_count s)(b := 0),
                   decide_at := (decide_at s)(b := None)\<rparr>
            else decide b s)
         else s)"

definition finalize :: "real \<Rightarrow> monitor \<Rightarrow> monitor" where
  "finalize now2 s = finalize_one now2 B2 (finalize_one now2 B1 s)"

text \<open>The test \<^verbatim>\<open>chord_pending and chord_detect_time\<close> is Python truthiness: a detect
  time of exactly 0.0 counts as none.\<close>

definition chord_timeout :: "real \<Rightarrow> monitor \<Rightarrow> monitor" where
  "chord_timeout clock s =
     (case chord_detect_time s of
        None \<Rightarrow> s
      | Some c \<Rightarrow>
         if chord_pending s \<and> c \<noteq> 0 \<and> clock - c > CHORD_TIMEOUT
         then s\<lparr>chord_pending := False, chord_detect_time := None, chord_armed := True\<rparr>
         else s)"

subsection \<open>The resync (step 4b)\<close>

definition resync_setup :: "real \<Rightarrow> (button \<Rightarrow> bool) \<Rightarrow> monitor \<Rightarrow> monitor" where
  "resync_setup now_mon raw_now s =
     (if \<not> resync_init s
      then s\<lparr>resync_init := True, last_raw := raw_now,
             raw_stable_since := (\<lambda>b. now_mon), last_synth_time := (\<lambda>b. 0)\<rparr>
      else s)"

definition track_raw :: "real \<Rightarrow> (button \<Rightarrow> bool) \<Rightarrow> button \<Rightarrow> monitor \<Rightarrow> monitor" where
  "track_raw now_mon raw_now btn s =
     (if raw_now btn \<noteq> last_raw s btn
      then s\<lparr>last_raw := (last_raw s)(btn := raw_now btn),
             raw_stable_since := (raw_stable_since s)(btn := now_mon)\<rparr>
      else s)"

definition can_synthesize :: "real \<Rightarrow> button \<Rightarrow> monitor \<Rightarrow> bool" where
  "can_synthesize now_mon btn s \<longleftrightarrow>
     (let stable_ms = (now_mon - raw_stable_since s btn) * 1000;
          since_last_syn_ms = (now_mon - last_synth_time s btn) * 1000
      in stable_ms \<ge> RESYNC_SAMPLE_MS \<and> since_last_syn_ms \<ge> RESYNC_COOLDOWN_MS)"

definition syn_press :: "real \<Rightarrow> button \<Rightarrow> monitor \<Rightarrow> monitor" where
  "syn_press now_mon btn s =
     (let s1 = s\<lparr>down := (down s)(btn := True)\<rparr>;
          s2 = s1\<lparr>press_time := (press_time s1)(btn := Some now_mon)\<rparr>;
          s3 = s2\<lparr>last_synth_time := (last_synth_time s2)(btn := now_mon)\<rparr>
      in case press_time s3 (other btn) of
           None \<Rightarrow> s3
         | Some t_other \<Rightarrow>
            if down s3 (other btn) then
              (let dt = \<bar>now_mon - t_other\<bar>
               in if dt \<le> CHORD_GRACE_MS / 1000 \<and> chord_armed s3
                  then s3\<lparr>chord_pending := True, chord_detect_time := Some now_mon,
                          chord_armed := False\<rparr>
                  else s3)
            else s3)"

definition syn_release :: "real \<Rightarrow> button \<Rightarrow> monitor \<Rightarrow> monitor" where
  "syn_release now_mon btn s =
     (let t_now = now_mon;
          press_at = (case press_time s btn of Some p \<Rightarrow> p | None \<Rightarrow> t_now);
          pulse_ms = max 0 ((t_now - press_at) * 1000);
          s1 = s\<lparr>down := (down s)(btn := False)\<rparr>;
          s2 = s1\<lparr>last_synth_time := (last_synth_time s1)(btn := t_now)\<rparr>;
          s3 = (if \<not> down s2 B1 \<and> \<not> down s2 B2 then
                  (let s2a = (if chord_pending s2 then
                                (emit CHORD s2)
                                  \<lparr>tap_count := (tap_count s2)(B1 := 0, B2 := 0),
                                   decide_at := (decide_at s2)(B1 := None, B2 := None),
                                   last_chord_time := now_mon,
                                   chord_pending := False,
                                   chord_detect_time := None\<rparr>
                              else s2)
                   in s2a\<lparr>chord_armed := True\<rparr>)
                else s2);
          s4 = (if pulse_ms < MIN_PULSE_MS then s3
                else if pulse_ms \<ge> HOLD_MS_BY_BTN btn then
                  (let s3a = s3\<lparr>tap_count := (tap_count s3)(btn := 0)\<rparr>;
                       s3b = s3a\<lparr>decide_at := (decide_at s3a)(btn := None)\<rparr>;
                       s3c = s3b\<lparr>tap_suppress_until :=
                                    (tap_suppress_until s3b)(btn := now_mon + hold_cooldown_sec)\<rparr>;
                       s3d = s3c\<lparr>last_hold_time := (last_hold_time s3c)(btn := now_mon)\<rparr>
                   in if btn = B1 then (if chord_recent now_mon s3d then s3d else emit (HOLD B1) s3d)
                      else emit (HOLD btn) s3d)
                else if \<not> chord_pending s3 \<and> \<not> chord_recent now_mon s3 then
                  (if now_mon \<ge> tap_suppress_until s3 btn
                   then s3\<lparr>tap_count := (tap_count s3)(btn := tap_count s3 btn + 1),
                           decide_at := (decide_at s3)(btn := Some (t_now + TAP_DECISION))\<rparr>
                   else s3)
                else s3)
      in s4\<lparr>press_time := (press_time s4)(btn := None)\<rparr>)"

definition syn_button :: "real \<Rightarrow> (button \<Rightarrow> bool) \<Rightarrow> button \<Rightarrow> monitor \<Rightarrow> monitor" where
  "syn_button now_mon raw_now btn s =
     (let s1 = (if raw_now btn \<and> \<not> down s btn \<and> can_synthesize now_mon btn s
                then syn_press now_mon btn s else s)
      in if \<not> raw_now btn \<and> down s1 btn \<and> can_synthesize now_mon btn s1
         then syn_release now_mon btn s1 else s1)"

definition resync :: "real \<Rightarrow> (button \<Rightarrow> bool) \<Rightarrow> monitor \<Rightarrow> monitor" where
  "resync now_mon raw_now s =
     (let s1 = resync_setup now_mon raw_now s;
          s2 = track_raw now_mon raw_now B2 (track_raw now_mon raw_now B1 s1)
      in syn_button now_mon raw_now B2 (syn_button now_mon raw_now B1 s2))"

subsection \<open>One pass, and a run of passes\<close>

record tick =
  tk_edge :: "(button \<times> bool \<times> real) option"
  tk_now :: real
  tk_raw :: "button \<Rightarrow> bool"

definition step :: "monitor \<Rightarrow> tick \<Rightarrow> monitor" where
  "step s tk =
     resync (tk_now tk) (tk_raw tk)
       (chord_timeout (tk_now tk)
          (finalize (tk_now tk)
             (process_edge (tk_edge tk) (tk_now tk) s)))"

definition run :: "monitor \<Rightarrow> tick list \<Rightarrow> monitor" where
  "run s tks = foldl step s tks"

section \<open>Claims about the classifier\<close>

subsection \<open>Concrete passes\<close>

text \<open>A pass that finds no edge, and a pass that handles one edge: button, press or
  release, timestamp of the edge, clock of the pass, pin levels read by the pass.\<close>

definition quiet :: "real \<Rightarrow> (button \<Rightarrow> bool) \<Rightarrow> tick" where
  "quiet clock lv = \<lparr>tk_edge = None, tk_now = clock, tk_raw = lv\<rparr>"

definition at_edge :: "button \<Rightarrow> bool \<Rightarrow> real \<Rightarrow> real \<Rightarrow> (button \<Rightarrow> bool) \<Rightarrow> tick" where
  "at_edge b is_press t clock lv = \<lparr>tk_edge = Some (b, is_press, t), tk_now = clock, tk_raw = lv\<rparr>"


subsection \<open>The rest of a pass, when the pins agree with the believed state\<close>






lemma resync_quiet:
  assumes "lv B1 = down s B1" "lv B2 = down s B2"
  shows "\<exists>i L R T. resync clock lv s =
           s\<lparr>resync_init := i, last_raw := L, raw_stable_since := R, last_synth_time := T\<rparr>"
proof -
  let ?s1 = "resync_setup clock lv s"
  let ?s2 = "track_raw clock lv B2 (track_raw clock lv B1 ?s1)"
  have e: "\<exists>i L R T. ?s2 = s\<lparr>resync_init := i, last_raw := L, raw_stable_since := R, last_synth_time := T\<rparr>"
  proof -
    have "?s2 = s\<lparr>resync_init := resync_init ?s2, last_raw := last_raw ?s2,
                   raw_stable_since := raw_stable_since ?s2, last_synth_time := last_synth_time ?s2\<rparr>"
      by (simp add: resync_setup_def track_raw_def)
    then show ?thesis by blast
  qed
  have d: "down ?s2 = down s" by (simp add: resync_setup_def track_raw_def)
  have b1: "syn_button clock lv B1 ?s2 = ?s2"
    using assms d by (auto simp: syn_button_def Let_def)
  have b2: "syn_button clock lv B2 ?s2 = ?s2"
    using assms d by (auto simp: syn_button_def Let_def)
  have "resync clock lv s = ?s2"
    unfolding resync_def Let_def b1 b2 ..
  with e show ?thesis by simp
qed

lemma finalize_idle: "decide_at s B1 = None \<Longrightarrow> decide_at s B2 = None \<Longrightarrow> finalize clock s = s"
  by (simp add: finalize_def finalize_one_def)








lemma chord_timeout_fields:
  "\<exists>a p c. chord_timeout clock s = s\<lparr>chord_armed := a, chord_pending := p, chord_detect_time := c\<rparr>"
proof -
  have "chord_timeout clock s = s\<lparr>chord_armed := chord_armed (chord_timeout clock s),
      chord_pending := chord_pending (chord_timeout clock s),
      chord_detect_time := chord_detect_time (chord_timeout clock s)\<rparr>"
    by (simp add: chord_timeout_def split: option.splits)
  then show ?thesis by blast
qed


subsection \<open>The hold branch\<close>

lemma hold_ge_min: "HOLD_MS_BY_BTN b \<le> x \<Longrightarrow> \<not> x < 20"
  by (cases b) auto

lemma classify_hold:
  assumes "HOLD_MS_BY_BTN b \<le> pulse"
  shows "classify_pulse b t pulse clock s =
     (let s4 = s\<lparr>tap_count := (tap_count s)(b := 0), decide_at := (decide_at s)(b := None),
                  tap_suppress_until := (tap_suppress_until s)(b := clock + hold_cooldown_sec),
                  last_hold_time := (last_hold_time s)(b := clock)\<rparr>
      in if b = B1 \<and> chord_recent clock s then s4 else emit (HOLD b) s4)"
  using assms hold_ge_min[OF assms]
  by (simp add: classify_pulse_def Let_def chord_recent_def emit_def)

lemma release_chord_fields:
  "event_queue (release_chord clock s) =
     event_queue s @ (if \<not> down s B1 \<and> \<not> down s B2 \<and> chord_pending s then [CHORD] else [])"
  "chord_recent clock' (release_chord clock s) =
     (if \<not> down s B1 \<and> \<not> down s B2 \<and> chord_pending s then clock' - clock < 75 / 100
      else chord_recent clock' s)"
  "tap_suppress_until (release_chord clock s) = tap_suppress_until s"
  "last_hold_time (release_chord clock s) = last_hold_time s"
  "down (release_chord clock s) = down s"
  "press_time (release_chord clock s) = press_time s"
  by (simp_all add: release_chord_def emit_def chord_recent_def Let_def)


text \<open>
  Claim C3, as stated, at a concrete input: button 1 is pressed at 110 s, button 2 at
  110.05 s; button 2 is released at 110.5 s and button 1 at 110.9 s. The pulse on
  button 1 lasts 900 ms, above its hold threshold of 800 ms, and the only gesture queued
  is the chord: no Hold.
\<close>

theorem hold_suppressed_after_chord:
  "(1109 / 10 - 110) * 1000 \<ge> HOLD_MS_BY_BTN B1
   \<and> event_queue (run monitor_init
        [quiet 100 (\<lambda>b. False),
         at_edge B1 True 110 110 (\<lambda>b. b = B1),
         at_edge B2 True (2201 / 20) (2201 / 20) (\<lambda>b. True),
         at_edge B2 False (221 / 2) (221 / 2) (\<lambda>b. b = B1),
         at_edge B1 False (1109 / 10) (1109 / 10) (\<lambda>b. False)]) = [CHORD]"
  by code_simp

text \<open>
  Claim C3, amended. When a release is handled whose pulse is at least the button's hold
  threshold (800 ms for button 1, 3000 ms for button 2), the button's tally and pending
  deadline are cleared, its suppression window is set to end 1.5 s after the pass's
  clock, and no Tap is queued for it, whatever the tally was: the deadline step of the
  same pass finds nothing to decide for it. The release queues the Chord first if it
  resolves a pending chord, and then exactly one Hold for the button, except that
  button 1's Hold is not queued when a chord resolved less than 750 ms before, this
  release's own chord included.
\<close>

theorem hold_pulse:
  assumes p: "press_time s b = Some p" and d: "(t - p) * 1000 \<ge> HOLD_MS_BY_BTN b"
  shows "tap_count (on_release b t clock s) b = 0
       \<and> decide_at (on_release b t clock s) b = None
       \<and> tap_suppress_until (on_release b t clock s) b = clock + hold_cooldown_sec
       \<and> last_hold_time (on_release b t clock s) b = clock
       \<and> event_queue (on_release b t clock s) =
           event_queue s
           @ (if chord_pending s \<and> \<not> down s (other b) then [CHORD] else [])
           @ (if b = B1 \<and> (chord_recent clock s \<or> (chord_pending s \<and> \<not> down s B2)) then []
              else [HOLD b])
       \<and> finalize_one clock2 b (on_release b t clock s) = on_release b t clock s"
proof -
  have tp: "\<not> t < p" using d by (cases b) auto
  let ?s2 = "s\<lparr>down := (down s)(b := False), press_time := (press_time s)(b := None)\<rparr>"
  let ?s3 = "release_chord clock ?s2"
  have r: "on_release b t clock s = classify_pulse b t ((t - p) * 1000) clock ?s3"
    using p tp by (simp add: on_release_def Let_def)
  have up: "(\<not> down ?s2 B1 \<and> \<not> down ?s2 B2) = (\<not> down s (other b))"
    by (cases b) auto
  have q: "event_queue ?s3 = event_queue s @ (if chord_pending s \<and> \<not> down s (other b) then [CHORD] else [])"
    unfolding release_chord_fields(1) using up by auto
  have cr: "chord_recent clock ?s3 = (chord_recent clock s \<or> (chord_pending s \<and> \<not> down s (other b)))"
    unfolding release_chord_fields(2) using up by (auto simp: chord_recent_def)
  show ?thesis
    unfolding r classify_hold[OF d]
    using q cr
    by (cases b) (simp_all add: Let_def emit_def finalize_one_def)
qed

text \<open>Button 1, pressed alone at 110 s and released at 110.9 s.\<close>

definition held_b1 :: monitor where
  "held_b1 = run monitor_init [quiet 100 (\<lambda>b. False), at_edge B1 True 110 110 (\<lambda>b. b = B1)]"

theorem hold_pulse_witness:
  "press_time held_b1 B1 = Some 110
   \<and> (1109 / 10 - 110) * 1000 \<ge> HOLD_MS_BY_BTN B1
   \<and> event_queue (on_release B1 (1109 / 10) (1109 / 10) held_b1) = [HOLD B1]
   \<and> tap_suppress_until (on_release B1 (1109 / 10) (1109 / 10) held_b1) B1 = 1124 / 10
   \<and> tap_count (on_release B1 (1109 / 10) (1109 / 10) held_b1) B1 = 0"
proof -
  have p: "press_time held_b1 B1 = Some 110" by code_simp
  have d: "(1109 / 10 - 110) * 1000 \<ge> HOLD_MS_BY_BTN B1" by simp
  have q: "event_queue held_b1 = []" "\<not> chord_pending held_b1" "\<not> chord_recent (1109 / 10) held_b1"
    by code_simp+
  from hold_pulse[OF p d, of "1109 / 10" 0] q p d show ?thesis by simp
qed

subsection \<open>Runs of short pulses\<close>

text \<open>
  Two properties of the input alone. \<open>edge_track\<close> follows the edges: the timestamp of
  the press a button is in, if any. A run has only short pulses when every release comes
  less than 20 ms after the press it ends, and the pin levels each pass reads are the
  levels the edges so far produce, so that the resync has nothing to repair.
\<close>

fun edge_track ::
  "(button \<Rightarrow> real option) \<Rightarrow> (button \<times> bool \<times> real) option \<Rightarrow> (button \<Rightarrow> real option)" where
  "edge_track lp None = lp"
| "edge_track lp (Some (b, is_press, t)) = (if is_press then lp(b := Some t) else lp(b := None))"

fun pulse_short :: "(button \<Rightarrow> real option) \<Rightarrow> (button \<times> bool \<times> real) option \<Rightarrow> bool" where
  "pulse_short lp None = True"
| "pulse_short lp (Some (b, is_press, t)) =
     (if is_press then True
      else (case lp b of None \<Rightarrow> True | Some p \<Rightarrow> (t - p) * 1000 < MIN_PULSE_MS))"

definition levels_agree :: "(button \<Rightarrow> real option) \<Rightarrow> (button \<Rightarrow> bool) \<Rightarrow> bool" where
  "levels_agree lp lv \<longleftrightarrow> lv B1 = (lp B1 \<noteq> None) \<and> lv B2 = (lp B2 \<noteq> None)"

fun short_pulses :: "(button \<Rightarrow> real option) \<Rightarrow> tick list \<Rightarrow> bool" where
  "short_pulses lp [] = True"
| "short_pulses lp (tk # tks) =
     (pulse_short lp (tk_edge tk)
      \<and> levels_agree (edge_track lp (tk_edge tk)) (tk_raw tk)
      \<and> short_pulses (edge_track lp (tk_edge tk)) tks)"

text \<open>What holds throughout such a run: the recorded press times are the tracked ones,
  nothing has been tallied or scheduled, and nothing but Chord has been posted.\<close>

definition short_inv :: "(button \<Rightarrow> real option) \<Rightarrow> monitor \<Rightarrow> bool" where
  "short_inv lp s \<longleftrightarrow>
     press_time s = lp \<and> (\<forall>b. down s b = (lp b \<noteq> None))
     \<and> (\<forall>b. tap_count s b = 0) \<and> (\<forall>b. decide_at s b = None)
     \<and> (\<forall>e\<in>set (event_queue s). e = CHORD)"

lemma proc_short:
  assumes i: "short_inv lp s" and p: "pulse_short lp e"
  shows "short_inv (edge_track lp e) (process_edge e clock s)"
proof (cases e)
  case None
  then show ?thesis using i by (simp add: process_edge_def)
next
  case (Some x)
  obtain b is_press t where x: "x = (b, is_press, t)" by (cases x) auto
  show ?thesis
  proof (cases is_press)
    case True
    then show ?thesis
      using i Some x
      by (auto simp: process_edge_def on_press_def short_inv_def Let_def split: option.splits)
  next
    case False
    show ?thesis
    proof (cases "lp b")
      case None
      then show ?thesis
        using i Some x False
        by (auto simp: process_edge_def on_release_def short_inv_def)
    next
      case (Some q)
      then have sh: "(t - q) * 1000 < 20" using p \<open>e = Some x\<close> x False by simp
      have cl: "((if t < q then q else t) - q) * 1000 < 20" using sh by simp
      let ?s2 = "s\<lparr>down := (down s)(b := False), press_time := (press_time s)(b := None)\<rparr>"
      have r: "process_edge e clock s = release_chord clock ?s2"
        using i Some \<open>e = Some x\<close> x False cl
        by (simp add: process_edge_def on_release_def short_inv_def classify_pulse_def Let_def)
      show ?thesis
        unfolding r using i \<open>e = Some x\<close> x False
        by (auto simp: release_chord_def emit_def short_inv_def Let_def)
    qed
  qed
qed

lemma step_short:
  assumes i: "short_inv lp s" and p: "pulse_short lp (tk_edge tk)"
    and l: "levels_agree (edge_track lp (tk_edge tk)) (tk_raw tk)"
  shows "short_inv (edge_track lp (tk_edge tk)) (step s tk)"
proof -
  let ?lp = "edge_track lp (tk_edge tk)"
  let ?s1 = "process_edge (tk_edge tk) (tk_now tk) s"
  have i1: "short_inv ?lp ?s1" by (rule proc_short[OF i p])
  have f: "finalize (tk_now tk) ?s1 = ?s1"
    using i1 by (intro finalize_idle) (simp_all add: short_inv_def)
  obtain a pd c where ct: "chord_timeout (tk_now tk) ?s1 = ?s1\<lparr>chord_armed := a, chord_pending := pd, chord_detect_time := c\<rparr>"
    using chord_timeout_fields by blast
  let ?s3 = "?s1\<lparr>chord_armed := a, chord_pending := pd, chord_detect_time := c\<rparr>"
  have i3: "short_inv ?lp ?s3" using i1 by (simp add: short_inv_def)
  have lv: "tk_raw tk B1 = down ?s3 B1" "tk_raw tk B2 = down ?s3 B2"
    using l i3 by (simp_all add: levels_agree_def short_inv_def)
  from resync_quiet[OF lv] obtain i' L R T where
    rs: "resync (tk_now tk) (tk_raw tk) ?s3 = ?s3\<lparr>resync_init := i', last_raw := L, raw_stable_since := R, last_synth_time := T\<rparr>"
    by blast
  have "step s tk = ?s3\<lparr>resync_init := i', last_raw := L, raw_stable_since := R, last_synth_time := T\<rparr>"
    unfolding step_def f ct rs ..
  then show ?thesis using i3 by (simp add: short_inv_def)
qed

lemma run_short:
  "short_inv lp s \<Longrightarrow> short_pulses lp tks \<Longrightarrow> \<exists>lp'. short_inv lp' (run s tks)"
proof (induction tks arbitrary: lp s)
  case Nil
  then show ?case by (auto simp: run_def)
next
  case (Cons tk tks)
  from Cons.prems(2) have p: "pulse_short lp (tk_edge tk)"
    and l: "levels_agree (edge_track lp (tk_edge tk)) (tk_raw tk)"
    and r: "short_pulses (edge_track lp (tk_edge tk)) tks" by simp_all
  from Cons.IH[OF step_short[OF Cons.prems(1) p l] r] show ?case by (simp add: run_def)
qed

lemma init_short: "short_inv (\<lambda>b. None) monitor_init"
  by (simp add: short_inv_def monitor_init_def)


text \<open>
  Claim C1, as stated, at a concrete input: button 1 is pressed at 110 s and released
  10 ms later; button 2 is pressed at 110.005 s and released 10 ms later. Both pulses
  are shorter than 20 ms, and a Chord is queued.
\<close>

definition two_blips :: "tick list" where
  "two_blips =
     [quiet 100 (\<lambda>b. False),
      at_edge B1 True 110 110 (\<lambda>b. b = B1),
      at_edge B2 True (110005 / 1000) (110005 / 1000) (\<lambda>b. True),
      at_edge B1 False (11001 / 100) (11001 / 100) (\<lambda>b. b = B2),
      at_edge B2 False (110015 / 1000) (110015 / 1000) (\<lambda>b. False)]"

theorem short_pulses_chord:
  "short_pulses (\<lambda>b. None) two_blips \<and> event_queue (run monitor_init two_blips) = [CHORD]"
  by code_simp

text \<open>
  Claim C1, amended. For every run of passes from the classifier's initial state in
  which every pulse is shorter than 20 ms and the pins agree with the edges delivered,
  no Tap, Double, FiveTap or Hold is ever placed on the event queue, and both tap
  tallies stay 0.
\<close>

theorem short_pulses_no_tap:
  assumes "short_pulses (\<lambda>b. None) tks"
  shows "(\<forall>b. TAP b \<notin> set (event_queue (run monitor_init tks))
            \<and> DOUBLE b \<notin> set (event_queue (run monitor_init tks))
            \<and> FIVETAP b \<notin> set (event_queue (run monitor_init tks))
            \<and> HOLD b \<notin> set (event_queue (run monitor_init tks)))
       \<and> tap_count (run monitor_init tks) B1 = 0 \<and> tap_count (run monitor_init tks) B2 = 0"
  using run_short[OF init_short assms] by (auto simp: short_inv_def)

definition one_blip :: "tick list" where
  "one_blip =
     [quiet 100 (\<lambda>b. False),
      at_edge B1 True 110 110 (\<lambda>b. b = B1),
      at_edge B1 False (11001 / 100) (11001 / 100) (\<lambda>b. False),
      quiet 111 (\<lambda>b. False)]"

theorem short_pulses_no_tap_witness:
  "short_pulses (\<lambda>b. None) one_blip
   \<and> TAP B1 \<notin> set (event_queue (run monitor_init one_blip))
   \<and> HOLD B1 \<notin> set (event_queue (run monitor_init one_blip))
   \<and> tap_count (run monitor_init one_blip) B1 = 0"
proof -
  have h: "short_pulses (\<lambda>b. None) one_blip" by code_simp
  from short_pulses_no_tap[OF h] h show ?thesis by simp
qed

subsection \<open>A chord, from the first press to the last release\<close>
























lemma run_append: "run s (xs @ ys) = run (run s xs) ys"
  by (simp add: run_def)













subsection \<open>The resync\<close>

text \<open>What the resync does keep to: it touches a button only when the pin now
  disagrees with the believed state, the pin has not changed between passes for 30 ms,
  and the button's last synthesized edge is at least 120 ms old.\<close>

lemma syn_button_only_when:
  "syn_button now_mon lv b s \<noteq> s \<Longrightarrow>
     lv b \<noteq> down s b
     \<and> (now_mon - raw_stable_since s b) * 1000 \<ge> RESYNC_SAMPLE_MS
     \<and> (now_mon - last_synth_time s b) * 1000 \<ge> RESYNC_COOLDOWN_MS"
  by (auto simp: syn_button_def can_synthesize_def Let_def split: if_splits)

text \<open>A synthesized edge is classified as a real edge with the pass's clock as its
  timestamp would be, and in addition stamps \<open>last_synth_time\<close>; the clamp of the
  synthesized pulse at 0 is the real path's clamp of a stale timestamp.\<close>

lemma syn_press_as_real:
  "syn_press now_mon b s =
     (on_press b now_mon now_mon s)\<lparr>last_synth_time := (last_synth_time s)(b := now_mon)\<rparr>"
  by (simp add: syn_press_def on_press_def Let_def split: option.splits)


lemma release_chord_synth:
  "release_chord c (s\<lparr>last_synth_time := f\<rparr>) = (release_chord c s)\<lparr>last_synth_time := f\<rparr>"
  by (simp add: release_chord_def emit_def Let_def)

lemma classify_pulse_synth:
  "classify_pulse b t pl c (s\<lparr>last_synth_time := f\<rparr>) = (classify_pulse b t pl c s)\<lparr>last_synth_time := f\<rparr>"
  by (simp add: classify_pulse_def emit_def chord_recent_def Let_def)

lemma release_chord_press:
  "release_chord c (s\<lparr>press_time := g\<rparr>) = (release_chord c s)\<lparr>press_time := g\<rparr>"
  by (simp add: release_chord_def emit_def Let_def)

lemma classify_pulse_press:
  "classify_pulse b t pl c (s\<lparr>press_time := g\<rparr>) = (classify_pulse b t pl c s)\<lparr>press_time := g\<rparr>"
  by (simp add: classify_pulse_def emit_def chord_recent_def Let_def)

lemma press_time_release_chord: "press_time (release_chord c s) = press_time s"
  by (simp add: release_chord_def emit_def Let_def)

lemma press_time_classify_pulse: "press_time (classify_pulse b t pl c s) = press_time s"
  by (simp add: classify_pulse_def emit_def Let_def)

lemma syn_release_unfold:
  "syn_release now_mon b s =
     (let press_at = (case press_time s b of Some p \<Rightarrow> p | None \<Rightarrow> now_mon);
          s4 = classify_pulse b now_mon (max 0 ((now_mon - press_at) * 1000)) now_mon
                 (release_chord now_mon
                    (s\<lparr>down := (down s)(b := False)\<rparr>
                      \<lparr>last_synth_time := (last_synth_time (s\<lparr>down := (down s)(b := False)\<rparr>))(b := now_mon)\<rparr>))
      in s4\<lparr>press_time := (press_time s4)(b := None)\<rparr>)"
  unfolding syn_release_def release_chord_def classify_pulse_def Let_def ..

lemma classify_pulse_short: "pl < 20 \<Longrightarrow> classify_pulse b t pl c s = s"
  by (simp add: classify_pulse_def)

lemma syn_release_as_real:
  assumes p: "press_time s b = Some p"
  shows "syn_release now_mon b s =
     (on_release b now_mon now_mon s)\<lparr>last_synth_time := (last_synth_time s)(b := now_mon)\<rparr>"
proof (cases "now_mon < p")
  case True
  then have z: "max 0 ((now_mon - p) * 1000) = 0" by (simp add: max_def)
  show ?thesis
    using p True
    by (simp add: syn_release_unfold on_release_def z classify_pulse_short Let_def
          release_chord_synth release_chord_press press_time_release_chord)
next
  case False
  then have z: "max 0 ((now_mon - p) * 1000) = (now_mon - p) * 1000" by (simp add: max_def)
  show ?thesis
    using p False
    by (simp add: syn_release_unfold on_release_def z Let_def
          release_chord_synth release_chord_press press_time_release_chord
          classify_pulse_synth classify_pulse_press press_time_classify_pulse)
qed

text \<open>
  A tap on button 1 (99.5 s to 99.6 s) is tallied and waits for its deadline at
  100.3 s. One more pass, at 99.99 s, finds the pin low and the button believed up.
\<close>

definition blip_run :: "tick list" where
  "blip_run =
     [quiet 50 (\<lambda>b. False),
      at_edge B1 True (995 / 10) (995 / 10) (\<lambda>b. b = B1),
      at_edge B1 False (996 / 10) (996 / 10) (\<lambda>b. False),
      quiet (9999 / 100) (\<lambda>b. False)]"

definition late_press :: tick where
  "late_press = at_edge B1 True 100 (100012 / 1000) (\<lambda>b. False)"

definition late_release :: tick where
  "late_release = at_edge B1 False (10001 / 100) (100013 / 1000) (\<lambda>b. False)"


text \<open>
  Claim C4, at a failing input. Button 1 is pressed at 100 s and released at 100.01 s.
  The pass that takes the press edge from the queue runs at 100.012 s and reads the pin
  low again. The pin and the believed state agreed 22 ms earlier, at 99.99 s, so the
  disagreement is younger than 30 ms; the pin itself has not changed between two passes
  since 99.6 s, though, and that is what the guard measures. A release is synthesized in
  this very pass. The real release edge, handled next, finds no press recorded and
  clears the tally of the earlier tap, which is never decided.
\<close>

theorem premature_synth:
  "tk_raw (quiet (9999 / 100) (\<lambda>b. False)) B1 = down (run monitor_init blip_run) B1
   \<and> tk_now late_press - 9999 / 100 < RESYNC_SAMPLE_MS / 1000
   \<and> last_synth_time (run monitor_init (blip_run @ [late_press])) B1 = tk_now late_press
   \<and> down (run monitor_init (blip_run @ [late_press])) B1 = False
   \<and> tap_count (run monitor_init (blip_run @ [late_press])) B1 = 1
   \<and> tap_count (run monitor_init (blip_run @ [late_press, late_release])) B1 = 0
   \<and> event_queue (run monitor_init (blip_run @ [late_press, late_release, quiet (1004 / 10) (\<lambda>b. False)])) = []"
  by code_simp


text \<open>The same edges, with the pin still high when the press is handled: nothing is
  synthesized and the earlier tap is delivered.\<close>

lemma pin_still_high:
  "event_queue (run monitor_init (blip_run @
      [at_edge B1 True 100 (100012 / 1000) (\<lambda>b. b = B1), late_release,
       quiet (1004 / 10) (\<lambda>b. False)])) = [TAP B1]"
  by code_simp


end
